theory Spec2Isabelle
  imports Main "HOL-Library.Word" "HOL-Library.Multiset"
begin

section \<open>Tarefa.c: a task list with an undo history\<close>

text \<open>
  The program keeps a singly linked list of tasks (\<open>TaskList\<close>: \<open>head\<close>, \<open>tail\<close>,
  \<open>next_id\<close>) and a singly linked stack of recorded actions (\<open>ActionStack\<close>: \<open>top\<close>).
  The embedding follows \<open>src/Tarefa.c\<close> function by function.

  \<^item> A chain of nodes linked by \<open>next\<close> and ended by \<open>NULL\<close> is a HOL list, in chain
    order: \<open>head\<close> is the first element, \<open>tail\<close> the last one, the top of the stack
    the first action. The code keeps \<open>tail\<close> on the last node in every function that
    links or unlinks a node, so appending through \<open>tail\<close> is \<open>xs @ [x]\<close>.
  \<^item> The C type \<open>int\<close> is a 32-bit word, read as two's complement by \<open>sint\<close>.
    \<open>+\<close> and \<open>-\<close> wrap around; a comparison of two \<open>int\<close>s compares their
    \<open>sint\<close>. ISO C leaves signed overflow undefined; the wrap-around is what the
    increment does on the usual two's complement targets.
  \<^item> A \<open>char *\<close> that is never \<open>NULL\<close> is a \<open>string\<close>, the characters before the
    terminating zero, which \<open>strdup\<close> copies; one that may be \<open>NULL\<close> (the description
    of an action) is a \<open>string option\<close>.
  \<^item> Every \<open>printf\<close> is a value of type \<open>message\<close>; a function returns the messages
    it prints, in order, next to its result and the updated structures.
  \<^item> \<open>malloc\<close> and \<open>strdup\<close> are taken to succeed (their failure ends the process).
\<close>

subsection \<open>Data\<close>

type_synonym cint = "32 word"

record Task =
  id_t :: cint
  description :: string
  completed :: bool

record TaskList =
  tasks :: "Task list"
  next_id :: cint

datatype ActionType = ACTION_ADD | ACTION_COMPLETE | ACTION_REMOVE

record Action =
  type :: ActionType
  task_id :: cint
  task_description :: "string option"
  was_completed :: bool

type_synonym ActionStack = "Action list"

text \<open>The lines the program prints, one constructor for each \<open>printf\<close> of the core.\<close>

datatype message =
    Added string cint             \<comment> \<open>line 81: task added, with its description and id\<close>
  | NoTasks                       \<comment> \<open>line 87: the list is empty\<close>
  | ListHeader                    \<comment> \<open>line 90\<close>
  | TaskLine cint bool string     \<comment> \<open>line 93: id, state, description of one task\<close>
  | ListFooter                    \<comment> \<open>line 99\<close>
  | AlreadyCompleted cint         \<comment> \<open>line 108\<close>
  | MarkedCompleted cint          \<comment> \<open>line 112\<close>
  | NotFound cint                 \<comment> \<open>lines 117 and 133: no task with this id\<close>
  | Removed cint string           \<comment> \<open>line 148\<close>
  | NothingToUndo                 \<comment> \<open>line 224\<close>
  | Undoing                       \<comment> \<open>line 228\<close>
  | UndoneAdd cint                \<comment> \<open>line 251\<close>
  | UndoAddMissing cint           \<comment> \<open>line 253: the added task is not in the list\<close>
  | UndoneComplete cint bool      \<comment> \<open>line 265\<close>
  | UndoCompleteMissing cint      \<comment> \<open>line 267: the completed task is not in the list\<close>
  | UndoneRemove string cint      \<comment> \<open>line 289\<close>

text \<open>\<open>strdup (NULL)\<close> in \<open>createTask\<close> reads through a null pointer.\<close>

datatype fault = NullDescription

subsection \<open>The task list\<close>

definition initTaskList :: TaskList where
  "initTaskList = \<lparr>tasks = [], next_id = 1\<rparr>"

definition createTask :: "cint \<Rightarrow> string \<Rightarrow> Task" where
  "createTask i d = \<lparr>id_t = i, description = d, completed = False\<rparr>"

text \<open>\<open>addTask\<close>: the new node takes \<open>next_id\<close>, which is then incremented, and is
  linked after \<open>tail\<close> (or becomes the only node).\<close>

definition addTask :: "TaskList \<Rightarrow> string \<Rightarrow> TaskList \<times> message list" where
  "addTask list d =
     (let newTask = createTask (next_id list) d
      in (list\<lparr>tasks := tasks list @ [newTask], next_id := next_id list + 1\<rparr>,
          [Added d (id_t newTask)]))"

definition listTasks :: "TaskList \<Rightarrow> message list" where
  "listTasks list =
     (if tasks list = [] then [NoTasks]
      else ListHeader # map (\<lambda>t. TaskLine (id_t t) (completed t) (description t)) (tasks list)
           @ [ListFooter])"

text \<open>The loop of \<open>completeTask\<close> over the chain from \<open>current\<close>: the result is the
  returned \<open>bool\<close>, the chain after the call and the line printed.\<close>

fun completeTask_loop :: "Task list \<Rightarrow> cint \<Rightarrow> bool \<times> Task list \<times> message list" where
  "completeTask_loop [] i = (False, [], [NotFound i])"
| "completeTask_loop (current # rest) i =
     (if id_t current = i then
        (if completed current then (False, current # rest, [AlreadyCompleted i])
         else (True, current\<lparr>completed := True\<rparr> # rest, [MarkedCompleted i]))
      else (case completeTask_loop rest i of
              (r, rest', out) \<Rightarrow> (r, current # rest', out)))"

definition completeTask :: "TaskList \<Rightarrow> cint \<Rightarrow> bool \<times> TaskList \<times> message list" where
  "completeTask list i =
     (case completeTask_loop (tasks list) i of
        (r, ts, out) \<Rightarrow> (r, list\<lparr>tasks := ts\<rparr>, out))"

text \<open>The search loop \<open>while (current != NULL && current->id != id)\<close>, which the code
  has four times (lines 127, 236, 260 and 355). \<open>seek i passed chain\<close> walks \<open>chain\<close>
  and returns the nodes passed (after \<open>passed\<close>) and the chain from \<open>current\<close> on,
  which is empty when \<open>current\<close> is \<open>NULL\<close>.\<close>

fun seek :: "cint \<Rightarrow> Task list \<Rightarrow> Task list \<Rightarrow> Task list \<times> Task list" where
  "seek i passed [] = (passed, [])"
| "seek i passed (current # rest) =
     (if id_t current \<noteq> i then seek i (passed @ [current]) rest
      else (passed, current # rest))"

text \<open>\<open>removeTask\<close> unlinks the node found and returns it; the caller frees it.\<close>

definition removeTask :: "TaskList \<Rightarrow> cint \<Rightarrow> Task option \<times> TaskList \<times> message list" where
  "removeTask list i =
     (case seek i [] (tasks list) of
        (passed, []) \<Rightarrow> (None, list, [NotFound i])
      | (passed, current # rest) \<Rightarrow>
          (Some current, list\<lparr>tasks := passed @ rest\<rparr>,
           [Removed (id_t current) (description current)]))"

subsection \<open>The action stack\<close>

definition initActionStack :: ActionStack where
  "initActionStack = []"

definition pushAction ::
  "ActionStack \<Rightarrow> ActionType \<Rightarrow> cint \<Rightarrow> string option \<Rightarrow> bool \<Rightarrow> ActionStack" where
  "pushAction stack ty i d w =
     \<lparr>type = ty, task_id = i, task_description = d, was_completed = w\<rparr> # stack"

definition popAction :: "ActionStack \<Rightarrow> Action option \<times> ActionStack" where
  "popAction stack = (case stack of [] \<Rightarrow> (None, []) | action # rest \<Rightarrow> (Some action, rest))"

subsection \<open>Undo\<close>

text \<open>The \<open>switch (lastAction->type)\<close> of \<open>undoLastAction\<close> (lines 230 to 292): the
  inverse of one popped action, applied to the task list.\<close>

definition undo_switch :: "Action \<Rightarrow> TaskList \<Rightarrow> fault + TaskList \<times> message list" where
  "undo_switch lastAction taskList =
     (case type lastAction of
        ACTION_ADD \<Rightarrow>
          (case seek (task_id lastAction) [] (tasks taskList) of
             (passed, current # rest) \<Rightarrow>
               Inr (taskList\<lparr>tasks := passed @ rest\<rparr>, [UndoneAdd (task_id lastAction)])
           | (passed, []) \<Rightarrow> Inr (taskList, [UndoAddMissing (task_id lastAction)]))
      | ACTION_COMPLETE \<Rightarrow>
          (case seek (task_id lastAction) [] (tasks taskList) of
             (passed, current # rest) \<Rightarrow>
               Inr (taskList\<lparr>tasks :=
                      passed @ current\<lparr>completed := was_completed lastAction\<rparr> # rest\<rparr>,
                    [UndoneComplete (task_id lastAction) (was_completed lastAction)])
           | (passed, []) \<Rightarrow> Inr (taskList, [UndoCompleteMissing (task_id lastAction)]))
      | ACTION_REMOVE \<Rightarrow>
          (case task_description lastAction of
             None \<Rightarrow> Inl NullDescription
           | Some d \<Rightarrow>
               (let readdedTask =
                      (createTask (task_id lastAction) d)\<lparr>completed := was_completed lastAction\<rparr>;
                    appended = taskList\<lparr>tasks := tasks taskList @ [readdedTask]\<rparr>;
                    adjusted =
                      (if sint (next_id appended) \<le> sint (task_id lastAction)
                       then appended\<lparr>next_id := task_id lastAction + 1\<rparr>
                       else appended)
                in Inr (adjusted, [UndoneRemove (description readdedTask) (id_t readdedTask)]))))"

definition undoLastAction ::
  "TaskList \<Rightarrow> ActionStack \<Rightarrow> fault + TaskList \<times> ActionStack \<times> message list" where
  "undoLastAction taskList actionStack =
     (case popAction actionStack of
        (None, stack') \<Rightarrow> Inr (taskList, stack', [NothingToUndo])
      | (Some lastAction, stack') \<Rightarrow>
          (case undo_switch lastAction taskList of
             Inl f \<Rightarrow> Inl f
           | Inr (taskList', out) \<Rightarrow> Inr (taskList', stack', Undoing # out)))"

subsection \<open>The dispatcher\<close>

text \<open>The state of \<open>main\<close> is the pair of \<open>myTasks\<close> and \<open>undoStack\<close>. A command is a
  menu choice of \<open>main\<close> with its argument already read: the description that
  \<open>fgets\<close> left in the buffer, or the id that \<open>scanf\<close> parsed. Choice 0, rejected input
  and unknown choices change neither structure and are left out.\<close>

type_synonym state = "TaskList \<times> ActionStack"

datatype command = CmdAdd string | CmdList | CmdComplete cint | CmdRemove cint | CmdUndo

text \<open>\<open>case 1\<close>: add, then record \<open>ACTION_ADD\<close> for the id \<open>next_id - 1\<close>.\<close>

definition main_case1 :: "state \<Rightarrow> string \<Rightarrow> state \<times> message list" where
  "main_case1 s d =
     (case s of (myTasks, undoStack) \<Rightarrow>
        (case addTask myTasks d of (myTasks', out) \<Rightarrow>
           ((myTasks', pushAction undoStack ACTION_ADD (next_id myTasks' - 1) (Some d) False),
            out)))"

text \<open>\<open>case 3\<close>: look the task up to read its flag, call \<open>completeTask\<close>, and record
  \<open>ACTION_COMPLETE\<close> only when it returned \<open>true\<close>.\<close>

definition main_case3 :: "state \<Rightarrow> cint \<Rightarrow> state \<times> message list" where
  "main_case3 s id_to_process =
     (case s of (myTasks, undoStack) \<Rightarrow>
        (let was_completed_before =
               (case seek id_to_process [] (tasks myTasks) of
                  (passed, []) \<Rightarrow> False
                | (passed, taskToComplete # rest) \<Rightarrow> completed taskToComplete)
         in (case completeTask myTasks id_to_process of
               (True, myTasks', out) \<Rightarrow>
                 ((myTasks',
                   pushAction undoStack ACTION_COMPLETE id_to_process None was_completed_before),
                  out)
             | (False, myTasks', out) \<Rightarrow> ((myTasks', undoStack), out))))"

text \<open>\<open>case 4\<close>: remove, and record \<open>ACTION_REMOVE\<close> with a copy of the removed node's
  fields when a node was returned.\<close>

definition main_case4 :: "state \<Rightarrow> cint \<Rightarrow> state \<times> message list" where
  "main_case4 s id_to_process =
     (case s of (myTasks, undoStack) \<Rightarrow>
        (case removeTask myTasks id_to_process of
           (Some removed, myTasks', out) \<Rightarrow>
             ((myTasks',
               pushAction undoStack ACTION_REMOVE (id_t removed) (Some (description removed))
                 (completed removed)),
              out)
         | (None, myTasks', out) \<Rightarrow> ((myTasks', undoStack), out)))"

text \<open>\<open>case 5\<close>: undo.\<close>

definition main_case5 :: "state \<Rightarrow> fault + state \<times> message list" where
  "main_case5 s =
     (case s of (myTasks, undoStack) \<Rightarrow>
        (case undoLastAction myTasks undoStack of
           Inl f \<Rightarrow> Inl f
         | Inr (myTasks', undoStack', out) \<Rightarrow> Inr ((myTasks', undoStack'), out)))"

definition main_step :: "command \<Rightarrow> state \<Rightarrow> fault + state \<times> message list" where
  "main_step cmd s =
     (case cmd of
        CmdAdd d \<Rightarrow> Inr (main_case1 s d)
      | CmdList \<Rightarrow> Inr (s, listTasks (fst s))
      | CmdComplete i \<Rightarrow> Inr (main_case3 s i)
      | CmdRemove i \<Rightarrow> Inr (main_case4 s i)
      | CmdUndo \<Rightarrow> main_case5 s)"

text \<open>The \<open>do ... while\<close> loop of \<open>main\<close> over the commands read, from the state \<open>s\<close>:
  the state after the last command and everything printed, or the fault that ended
  the run.\<close>

fun main_loop :: "command list \<Rightarrow> state \<Rightarrow> fault + state \<times> message list" where
  "main_loop [] s = Inr (s, [])"
| "main_loop (cmd # cmds) s =
     (case main_step cmd s of
        Inl f \<Rightarrow> Inl f
      | Inr (s', out) \<Rightarrow>
          (case main_loop cmds s' of
             Inl f \<Rightarrow> Inl f
           | Inr (s'', out') \<Rightarrow> Inr (s'', out @ out')))"

definition final_state :: "fault + state \<times> message list \<Rightarrow> state option" where
  "final_state r = (case r of Inl f \<Rightarrow> None | Inr (s, out) \<Rightarrow> Some s)"

definition printed :: "fault + state \<times> message list \<Rightarrow> message list" where
  "printed r = (case r of Inl f \<Rightarrow> [] | Inr (s, out) \<Rightarrow> out)"

text \<open>\<open>INT_MAX\<close> of a 32-bit \<open>int\<close>.\<close>

definition INT_MAX :: int where
  "INT_MAX = 2147483647"

text \<open>The invariant of the data model, on the state of \<open>main\<close>: every id carried by a
  task of the list or by an action of the history is below \<open>next_id\<close>.\<close>

definition ids_below_next :: "state \<Rightarrow> bool" where
  "ids_below_next s =
     (case s of (list, stack) \<Rightarrow>
        (\<forall>t \<in> set (tasks list). sint (id_t t) < sint (next_id list)) \<and>
        (\<forall>a \<in> set stack. sint (task_id a) < sint (next_id list)))"

text \<open>Every \<open>ACTION_REMOVE\<close> of a history carries a description, as the ones that
  \<open>case 4\<close> of \<open>main\<close> records do. \<open>undoLastAction\<close> hands the description to
  \<open>createTask\<close>, which reads it.\<close>

definition removes_described :: "ActionStack \<Rightarrow> bool" where
  "removes_described stack =
     (\<forall>a \<in> set stack. type a = ACTION_REMOVE \<longrightarrow> task_description a \<noteq> None)"

subsection \<open>Reading a run\<close>

text \<open>The ids a run issued: the ids of its \<open>Added\<close> lines (line 81), in the order printed.\<close>

fun added_ids :: "message list \<Rightarrow> cint list" where
  "added_ids [] = []"
| "added_ids (Added d i # out) = i # added_ids out"
| "added_ids (m # out) = added_ids out"

text \<open>A list of \<open>int\<close>s is strictly increasing, as C compares them.\<close>

definition strictly_increasing :: "cint list \<Rightarrow> bool" where
  "strictly_increasing js = sorted_wrt (\<lambda>a b. sint a < sint b) js"

text \<open>The number of add commands in a command list.\<close>

fun count_adds :: "command list \<Rightarrow> nat" where
  "count_adds [] = 0"
| "count_adds (CmdAdd d # cmds) = Suc (count_adds cmds)"
| "count_adds (cmd # cmds) = count_adds cmds"

text \<open>The line that \<open>undoLastAction\<close> prints after it has applied the inverse of an
  action (lines 251, 265 and 289); none for an \<open>ACTION_REMOVE\<close> without description,
  which \<open>createTask\<close> cannot read.\<close>

definition undone_line :: "Action \<Rightarrow> message option" where
  "undone_line a =
     (case type a of
        ACTION_ADD \<Rightarrow> Some (UndoneAdd (task_id a))
      | ACTION_COMPLETE \<Rightarrow> Some (UndoneComplete (task_id a) (was_completed a))
      | ACTION_REMOVE \<Rightarrow>
          (case task_description a of
             None \<Rightarrow> None
           | Some d \<Rightarrow> Some (UndoneRemove d (task_id a))))"

subsection \<open>Sample data\<close>

text \<open>A list of three tasks, the second one completed, used to run the functions
  on concrete input.\<close>

definition sample_list :: TaskList where
  "sample_list =
     \<lparr>tasks = [\<lparr>id_t = 1, description = ''buy milk'', completed = False\<rparr>,
               \<lparr>id_t = 2, description = ''pay bills'', completed = True\<rparr>,
               \<lparr>id_t = 3, description = ''call home'', completed = False\<rparr>],
      next_id = 4\<rparr>"

section \<open>Properties\<close>

subsection \<open>The search loop\<close>

lemma seek_takeWhile_dropWhile:
  "seek i passed chain =
     (passed @ takeWhile (\<lambda>t. id_t t \<noteq> i) chain, dropWhile (\<lambda>t. id_t t \<noteq> i) chain)"
  by (induction chain arbitrary: passed) simp_all

lemma seek_absent:
  "i \<notin> id_t ` set chain \<Longrightarrow> seek i passed chain = (passed @ chain, [])"
  by (induction chain arbitrary: passed) auto

lemma seek_first:
  "i \<notin> id_t ` set pre \<Longrightarrow> id_t t = i \<Longrightarrow>
     seek i passed (pre @ t # post) = (passed @ pre, t # post)"
  by (induction pre arbitrary: passed) auto

text \<open>A chain holding the id splits at the first node that carries it.\<close>

lemma first_with_id:
  assumes "i \<in> id_t ` set chain"
  obtains pre t post where "chain = pre @ t # post" "id_t t = i" "i \<notin> id_t ` set pre"
proof -
  from assms have "\<exists>x \<in> set chain. id_t x = i" by auto
  then obtain pre t post where
    split: "chain = pre @ t # post" "id_t t = i" "\<forall>y \<in> set pre. id_t y \<noteq> i"
    by (auto dest!: split_list_first_prop)
  from split(3) have "i \<notin> id_t ` set pre" by auto
  with split(1,2) show thesis by (rule that)
qed

lemma completeTask_loop_absent:
  "i \<notin> id_t ` set chain \<Longrightarrow> completeTask_loop chain i = (False, chain, [NotFound i])"
  by (induction chain) auto

lemma completeTask_loop_first:
  "i \<notin> id_t ` set pre \<Longrightarrow> id_t t = i \<Longrightarrow>
     completeTask_loop (pre @ t # post) i =
       (if completed t then (False, pre @ t # post, [AlreadyCompleted i])
        else (True, pre @ t\<lparr>completed := True\<rparr> # post, [MarkedCompleted i]))"
  by (induction pre) auto

lemma tasks_update_same: "tasks list = ts \<Longrightarrow> list\<lparr>tasks := ts\<rparr> = list"
  by auto

lemma completeTask_absent:
  "i \<notin> id_t ` set (tasks list) \<Longrightarrow> completeTask list i = (False, list, [NotFound i])"
  by (simp add: completeTask_def completeTask_loop_absent)

lemma completeTask_first:
  assumes "tasks list = pre @ t # post" "id_t t = i" "i \<notin> id_t ` set pre"
  shows "completeTask list i =
           (if completed t then (False, list, [AlreadyCompleted i])
            else (True, list\<lparr>tasks := pre @ t\<lparr>completed := True\<rparr> # post\<rparr>,
                  [MarkedCompleted i]))"
  using assms by (simp add: completeTask_def completeTask_loop_first tasks_update_same)

lemma removeTask_absent:
  "i \<notin> id_t ` set (tasks list) \<Longrightarrow> removeTask list i = (None, list, [NotFound i])"
  by (simp add: removeTask_def seek_absent)

lemma removeTask_first:
  "tasks list = pre @ t # post \<Longrightarrow> id_t t = i \<Longrightarrow> i \<notin> id_t ` set pre \<Longrightarrow>
     removeTask list i = (Some t, list\<lparr>tasks := pre @ post\<rparr>, [Removed i (description t)])"
  by (simp add: removeTask_def seek_first)

subsection \<open>One undo call\<close>

lemma undoLastAction_Nil: "undoLastAction list [] = Inr (list, [], [NothingToUndo])"
  by (simp add: undoLastAction_def popAction_def)

lemma undoLastAction_Cons:
  "undoLastAction list (a # stack) =
     (case undo_switch a list of
        Inl f \<Rightarrow> Inl f
      | Inr (list', out) \<Rightarrow> Inr (list', stack, Undoing # out))"
  by (simp add: undoLastAction_def popAction_def)

lemma undo_switch_add_missing:
  "type a = ACTION_ADD \<Longrightarrow> task_id a \<notin> id_t ` set (tasks list) \<Longrightarrow>
     undo_switch a list = Inr (list, [UndoAddMissing (task_id a)])"
  by (simp add: undo_switch_def seek_absent)

lemma undo_switch_complete_missing:
  "type a = ACTION_COMPLETE \<Longrightarrow> task_id a \<notin> id_t ` set (tasks list) \<Longrightarrow>
     undo_switch a list = Inr (list, [UndoCompleteMissing (task_id a)])"
  by (simp add: undo_switch_def seek_absent)

lemma undo_switch_add_first:
  "type a = ACTION_ADD \<Longrightarrow> tasks list = pre @ t # post \<Longrightarrow> id_t t = task_id a \<Longrightarrow>
   task_id a \<notin> id_t ` set pre \<Longrightarrow>
     undo_switch a list = Inr (list\<lparr>tasks := pre @ post\<rparr>, [UndoneAdd (task_id a)])"
  by (simp add: undo_switch_def seek_first)

lemma undo_switch_complete_first:
  "type a = ACTION_COMPLETE \<Longrightarrow> tasks list = pre @ t # post \<Longrightarrow> id_t t = task_id a \<Longrightarrow>
   task_id a \<notin> id_t ` set pre \<Longrightarrow>
     undo_switch a list =
       Inr (list\<lparr>tasks := pre @ t\<lparr>completed := was_completed a\<rparr> # post\<rparr>,
            [UndoneComplete (task_id a) (was_completed a)])"
  by (simp add: undo_switch_def seek_first)

lemma undo_switch_remove:
  "type a = ACTION_REMOVE \<Longrightarrow> task_description a = Some d \<Longrightarrow>
     undo_switch a list =
       Inr (list\<lparr>tasks := tasks list @
                    [\<lparr>id_t = task_id a, description = d, completed = was_completed a\<rparr>],
                 next_id := (if sint (next_id list) \<le> sint (task_id a) then task_id a + 1
                             else next_id list)\<rparr>,
            [UndoneRemove d (task_id a)])"
  by (simp add: undo_switch_def createTask_def Let_def)

lemma undo_switch_returns:
  "(type a = ACTION_REMOVE \<longrightarrow> task_description a \<noteq> None) \<Longrightarrow>
     \<exists>list' out. undo_switch a list = Inr (list', out)"
  by (auto simp: undo_switch_def Let_def split: ActionType.splits prod.splits list.splits)

subsection \<open>Increments of an \<open>int\<close>\<close>

lemma sint_add_of_nat:
  assumes "sint (a :: cint) + int k \<le> INT_MAX"
  shows "sint (a + of_nat k) = sint a + int k"
proof -
  have lo: "- (2 ^ 31) \<le> sint a"
    using sint_range_size [of a] by (simp add: word_size)
  have "a + of_nat k = word_of_int (sint a + int k)"
    by simp
  then have "sint (a + of_nat k) = signed_take_bit (LENGTH(32) - 1) (sint a + int k)"
    by (simp only: sint_sbintrunc')
  also have "\<dots> = sint a + int k"
    using lo assms by (intro signed_take_bit_int_eq_self) (simp_all add: INT_MAX_def)
  finally show ?thesis .
qed

lemma sint_Suc:
  "sint (a :: cint) < INT_MAX \<Longrightarrow> sint (a + 1) = sint a + 1"
  using sint_add_of_nat [of a 1] by simp

subsection \<open>Claims about single operations\<close>

text \<open>
  Claim C8. \<open>removeTask\<close> with an id that a task of the list carries unlinks the first
  task with this id: the tasks before it and after it stay, in their order, and the
  task itself (its id, description and completed flag) is returned. With an id that no
  task carries it reports that the task was not found, returns no task and leaves the
  list as it was.
\<close>

theorem removeTask_present_absent:
  "(i \<in> id_t ` set (tasks list) \<longrightarrow>
      (\<exists>pre t post. tasks list = pre @ t # post \<and> id_t t = i \<and> i \<notin> id_t ` set pre \<and>
         removeTask list i =
           (Some t, list\<lparr>tasks := pre @ post\<rparr>, [Removed i (description t)]))) \<and>
   (i \<notin> id_t ` set (tasks list) \<longrightarrow> removeTask list i = (None, list, [NotFound i]))"
proof (intro conjI impI)
  assume "i \<in> id_t ` set (tasks list)"
  then obtain pre t post where
    split: "tasks list = pre @ t # post" "id_t t = i" "i \<notin> id_t ` set pre"
    by (rule first_with_id)
  then have "removeTask list i =
      (Some t, list\<lparr>tasks := pre @ post\<rparr>, [Removed i (description t)])"
    by (rule removeTask_first)
  with split show "\<exists>pre t post. tasks list = pre @ t # post \<and> id_t t = i \<and>
      i \<notin> id_t ` set pre \<and>
      removeTask list i = (Some t, list\<lparr>tasks := pre @ post\<rparr>, [Removed i (description t)])"
    by blast
next
  assume "i \<notin> id_t ` set (tasks list)"
  then show "removeTask list i = (None, list, [NotFound i])"
    by (rule removeTask_absent)
qed

theorem removeTask_present_absent_witness:
  "(2 \<in> id_t ` set (tasks sample_list) \<and>
    removeTask sample_list 2 =
      (Some \<lparr>id_t = 2, description = ''pay bills'', completed = True\<rparr>,
       sample_list\<lparr>tasks := [\<lparr>id_t = 1, description = ''buy milk'', completed = False\<rparr>,
                             \<lparr>id_t = 3, description = ''call home'', completed = False\<rparr>]\<rparr>,
       [Removed 2 ''pay bills''])) \<and>
   (9 \<notin> id_t ` set (tasks sample_list) \<and>
    removeTask sample_list 9 = (None, sample_list, [NotFound 9]))"
  using removeTask_present_absent [of 2 sample_list] removeTask_present_absent [of 9 sample_list]
  by (simp add: sample_list_def removeTask_def)

text \<open>
  Claim C5. \<open>completeTask\<close> has three outcomes. With an id that no task carries it
  reports not found and changes nothing. Otherwise it looks at the first task with
  the id: when that task is completed it reports already completed and changes
  nothing; when it is pending it sets the flag of that task and of no other. A second
  call with the same id then reports already completed and leaves the flag set.
\<close>

theorem completeTask_three_outcomes:
  "(i \<notin> id_t ` set (tasks list) \<longrightarrow> completeTask list i = (False, list, [NotFound i])) \<and>
   (i \<in> id_t ` set (tasks list) \<longrightarrow>
      (\<exists>pre t post. tasks list = pre @ t # post \<and> id_t t = i \<and> i \<notin> id_t ` set pre \<and>
         (completed t \<longrightarrow> completeTask list i = (False, list, [AlreadyCompleted i])) \<and>
         (\<not> completed t \<longrightarrow>
            (\<exists>list'. completeTask list i = (True, list', [MarkedCompleted i]) \<and>
               list' = list\<lparr>tasks := pre @ t\<lparr>completed := True\<rparr> # post\<rparr> \<and>
               completeTask list' i = (False, list', [AlreadyCompleted i])))))"
proof (intro conjI impI)
  assume "i \<notin> id_t ` set (tasks list)"
  then show "completeTask list i = (False, list, [NotFound i])"
    by (rule completeTask_absent)
next
  assume "i \<in> id_t ` set (tasks list)"
  then obtain pre t post where
    split: "tasks list = pre @ t # post" "id_t t = i" "i \<notin> id_t ` set pre"
    by (rule first_with_id)
  let ?list' = "list\<lparr>tasks := pre @ t\<lparr>completed := True\<rparr> # post\<rparr>"
  have first: "completeTask list i =
      (if completed t then (False, list, [AlreadyCompleted i])
       else (True, ?list', [MarkedCompleted i]))"
    using split by (rule completeTask_first)
  have again: "completeTask ?list' i = (False, ?list', [AlreadyCompleted i])"
    using split(2,3)
    by (simp add: completeTask_first [where pre = pre and t = "t\<lparr>completed := True\<rparr>"
          and post = post])
  from split first again
  show "\<exists>pre t post. tasks list = pre @ t # post \<and> id_t t = i \<and> i \<notin> id_t ` set pre \<and>
         (completed t \<longrightarrow> completeTask list i = (False, list, [AlreadyCompleted i])) \<and>
         (\<not> completed t \<longrightarrow>
            (\<exists>list'. completeTask list i = (True, list', [MarkedCompleted i]) \<and>
               list' = list\<lparr>tasks := pre @ t\<lparr>completed := True\<rparr> # post\<rparr> \<and>
               completeTask list' i = (False, list', [AlreadyCompleted i])))"
    by (intro exI [of _ pre] exI [of _ t] exI [of _ post]) simp
qed

theorem completeTask_three_outcomes_witness:
  "(9 \<notin> id_t ` set (tasks sample_list) \<and>
    completeTask sample_list 9 = (False, sample_list, [NotFound 9])) \<and>
   (2 \<in> id_t ` set (tasks sample_list) \<and>
    completeTask sample_list 2 = (False, sample_list, [AlreadyCompleted 2])) \<and>
   (3 \<in> id_t ` set (tasks sample_list) \<and>
    completeTask sample_list 3 =
      (True,
       sample_list\<lparr>tasks := [\<lparr>id_t = 1, description = ''buy milk'', completed = False\<rparr>,
                             \<lparr>id_t = 2, description = ''pay bills'', completed = True\<rparr>,
                             \<lparr>id_t = 3, description = ''call home'', completed = True\<rparr>]\<rparr>,
       [MarkedCompleted 3]) \<and>
    completeTask (fst (snd (completeTask sample_list 3))) 3 =
      (False, fst (snd (completeTask sample_list 3)), [AlreadyCompleted 3]))"
  using completeTask_three_outcomes [of 9 sample_list]
    completeTask_three_outcomes [of 2 sample_list]
    completeTask_three_outcomes [of 3 sample_list]
  by (simp add: sample_list_def completeTask_def)

text \<open>
  Claim C9. When \<open>undoLastAction\<close> pops an \<open>ACTION_ADD\<close> or an \<open>ACTION_COMPLETE\<close> whose
  task id no task of the list carries, it prints the error line for that id and
  leaves the list as it was. \<open>popAction\<close> takes the top action off whatever it is,
  and whatever the outcome of the call, success or error line, the history after the
  call is the history without its top action (an \<open>ACTION_REMOVE\<close> being recorded
  with its description, as \<open>main\<close> does).
\<close>

theorem undo_missing_task:
  "(task_id a \<notin> id_t ` set (tasks list) \<longrightarrow>
      (type a = ACTION_ADD \<longrightarrow>
         undoLastAction list (a # stack) =
           Inr (list, stack, [Undoing, UndoAddMissing (task_id a)])) \<and>
      (type a = ACTION_COMPLETE \<longrightarrow>
         undoLastAction list (a # stack) =
           Inr (list, stack, [Undoing, UndoCompleteMissing (task_id a)]))) \<and>
   popAction (a # stack) = (Some a, stack) \<and>
   ((type a = ACTION_REMOVE \<longrightarrow> task_description a \<noteq> None) \<longrightarrow>
      (\<exists>list' out. undoLastAction list (a # stack) = Inr (list', stack, out)))"
proof (intro conjI impI)
  assume "type a = ACTION_REMOVE \<longrightarrow> task_description a \<noteq> None"
  then obtain list' out where "undo_switch a list = Inr (list', out)"
    using undo_switch_returns by blast
  then show "\<exists>list' out. undoLastAction list (a # stack) = Inr (list', stack, out)"
    by (simp add: undoLastAction_Cons)
qed (simp_all add: undoLastAction_Cons undo_switch_add_missing undo_switch_complete_missing
    popAction_def)

theorem undo_missing_task_witness:
  "task_id \<lparr>type = ACTION_ADD, task_id = 9, task_description = Some ''x'', was_completed = False\<rparr>
     \<notin> id_t ` set (tasks sample_list) \<and>
   undoLastAction sample_list
     [\<lparr>type = ACTION_ADD, task_id = 9, task_description = Some ''x'', was_completed = False\<rparr>,
      \<lparr>type = ACTION_COMPLETE, task_id = 9, task_description = None, was_completed = False\<rparr>] =
     Inr (sample_list,
          [\<lparr>type = ACTION_COMPLETE, task_id = 9, task_description = None, was_completed = False\<rparr>],
          [Undoing, UndoAddMissing 9]) \<and>
   undoLastAction sample_list
     [\<lparr>type = ACTION_COMPLETE, task_id = 9, task_description = None, was_completed = False\<rparr>] =
     Inr (sample_list, [], [Undoing, UndoCompleteMissing 9]) \<and>
   task_description
     \<lparr>type = ACTION_REMOVE, task_id = 9, task_description = Some ''x'', was_completed = False\<rparr>
     \<noteq> None \<and>
   undoLastAction sample_list
     [\<lparr>type = ACTION_REMOVE, task_id = 9, task_description = Some ''x'', was_completed = False\<rparr>] =
     Inr (sample_list\<lparr>tasks := tasks sample_list @
            [\<lparr>id_t = 9, description = ''x'', completed = False\<rparr>], next_id := 10\<rparr>,
          [], [Undoing, UndoneRemove ''x'' 9])"
  using undo_missing_task [of "\<lparr>type = ACTION_ADD, task_id = 9, task_description = Some ''x'',
      was_completed = False\<rparr>" sample_list
      "[\<lparr>type = ACTION_COMPLETE, task_id = 9, task_description = None, was_completed = False\<rparr>]"]
    undo_missing_task [of "\<lparr>type = ACTION_COMPLETE, task_id = 9, task_description = None,
      was_completed = False\<rparr>" sample_list "[]"]
    undo_missing_task [of "\<lparr>type = ACTION_REMOVE, task_id = 9, task_description = Some ''x'',
      was_completed = False\<rparr>" sample_list "[]"]
  by (simp add: sample_list_def undoLastAction_Cons undo_switch_def createTask_def)

subsection \<open>Claims about the dispatcher and undo\<close>

lemma main_case3_absent:
  "i \<notin> id_t ` set (tasks list) \<Longrightarrow> main_case3 (list, stack) i = ((list, stack), [NotFound i])"
  by (simp add: main_case3_def completeTask_absent seek_absent)

lemma main_case3_first:
  assumes "tasks list = pre @ t # post" "id_t t = i" "i \<notin> id_t ` set pre"
  shows "main_case3 (list, stack) i =
           (if completed t then ((list, stack), [AlreadyCompleted i])
            else ((list\<lparr>tasks := pre @ t\<lparr>completed := True\<rparr> # post\<rparr>,
                   pushAction stack ACTION_COMPLETE i None False),
                  [MarkedCompleted i]))"
  using assms by (simp add: main_case3_def completeTask_first seek_first)



lemma main_case5_Cons:
  "main_case5 (list, a # stack) =
     (case undo_switch a list of
        Inl f \<Rightarrow> Inl f
      | Inr (list', out) \<Rightarrow> Inr ((list', stack), Undoing # out))"
  by (simp add: main_case5_def undoLastAction_Cons split: sum.splits)

lemma main_case5_Nil: "main_case5 (list, []) = Inr ((list, []), [NothingToUndo])"
  by (simp add: main_case5_def undoLastAction_Nil)

text \<open>
  Claim C6. Completing a pending task through \<open>case 3\<close> and undoing through
  \<open>case 5\<close> gives back the list and the history from before: the flag is \<open>false\<close>
  again. Called on a task that is already completed, \<open>case 3\<close> pushes nothing on the
  history, so no later undo reverts that call.
\<close>

theorem complete_then_undo:
  "tasks list = pre @ t # post \<and> id_t t = i \<and> i \<notin> id_t ` set pre \<longrightarrow>
     (\<not> completed t \<longrightarrow>
        (\<exists>list'. main_case3 (list, stack) i =
             ((list', pushAction stack ACTION_COMPLETE i None False), [MarkedCompleted i]) \<and>
           list' = list\<lparr>tasks := pre @ t\<lparr>completed := True\<rparr> # post\<rparr> \<and>
           main_case5 (list', pushAction stack ACTION_COMPLETE i None False) =
             Inr ((list, stack), [Undoing, UndoneComplete i False]))) \<and>
     (completed t \<longrightarrow> main_case3 (list, stack) i = ((list, stack), [AlreadyCompleted i]))"
proof (intro impI conjI)
  assume split: "tasks list = pre @ t # post \<and> id_t t = i \<and> i \<notin> id_t ` set pre"
  assume pending: "\<not> completed t"
  let ?list' = "list\<lparr>tasks := pre @ t\<lparr>completed := True\<rparr> # post\<rparr>"
  let ?a = "\<lparr>type = ACTION_COMPLETE, task_id = i, task_description = None,
             was_completed = False\<rparr>"
  have step: "main_case3 (list, stack) i =
      ((?list', pushAction stack ACTION_COMPLETE i None False), [MarkedCompleted i])"
    using split pending by (simp add: main_case3_first [of list pre t post i])
  have restored: "t\<lparr>completed := True, completed := False\<rparr> = t"
    using pending by simp
  have "undo_switch ?a ?list' =
      Inr (?list'\<lparr>tasks := pre @ (t\<lparr>completed := True\<rparr>)\<lparr>completed := was_completed ?a\<rparr> # post\<rparr>,
           [UndoneComplete (task_id ?a) (was_completed ?a)])"
    using split by (intro undo_switch_complete_first) simp_all
  then have "undo_switch ?a ?list' = Inr (list, [UndoneComplete i False])"
    using split restored by (simp add: tasks_update_same)
  then have undo: "main_case5 (?list', pushAction stack ACTION_COMPLETE i None False) =
      Inr ((list, stack), [Undoing, UndoneComplete i False])"
    by (simp add: pushAction_def main_case5_Cons)
  from step undo
  show "\<exists>list'. main_case3 (list, stack) i =
             ((list', pushAction stack ACTION_COMPLETE i None False), [MarkedCompleted i]) \<and>
           list' = list\<lparr>tasks := pre @ t\<lparr>completed := True\<rparr> # post\<rparr> \<and>
           main_case5 (list', pushAction stack ACTION_COMPLETE i None False) =
             Inr ((list, stack), [Undoing, UndoneComplete i False])"
    by simp
next
  assume "tasks list = pre @ t # post \<and> id_t t = i \<and> i \<notin> id_t ` set pre" "completed t"
  then show "main_case3 (list, stack) i = ((list, stack), [AlreadyCompleted i])"
    by (simp add: main_case3_first [of list pre t post i])
qed

theorem complete_then_undo_witness:
  "(tasks sample_list =
      [\<lparr>id_t = 1, description = ''buy milk'', completed = False\<rparr>,
       \<lparr>id_t = 2, description = ''pay bills'', completed = True\<rparr>] @
      \<lparr>id_t = 3, description = ''call home'', completed = False\<rparr> # [] \<and>
    main_case3 (sample_list, []) 3 =
      ((sample_list\<lparr>tasks :=
          [\<lparr>id_t = 1, description = ''buy milk'', completed = False\<rparr>,
           \<lparr>id_t = 2, description = ''pay bills'', completed = True\<rparr>,
           \<lparr>id_t = 3, description = ''call home'', completed = True\<rparr>]\<rparr>,
        pushAction [] ACTION_COMPLETE 3 None False),
       [MarkedCompleted 3]) \<and>
    main_case5 (fst (main_case3 (sample_list, []) 3)) =
      Inr ((sample_list, []), [Undoing, UndoneComplete 3 False])) \<and>
   (tasks sample_list =
      [\<lparr>id_t = 1, description = ''buy milk'', completed = False\<rparr>] @
      \<lparr>id_t = 2, description = ''pay bills'', completed = True\<rparr> #
      [\<lparr>id_t = 3, description = ''call home'', completed = False\<rparr>] \<and>
    main_case3 (sample_list, []) 2 = ((sample_list, []), [AlreadyCompleted 2]))"
  using complete_then_undo [of sample_list
      "[\<lparr>id_t = 1, description = ''buy milk'', completed = False\<rparr>,
        \<lparr>id_t = 2, description = ''pay bills'', completed = True\<rparr>]"
      "\<lparr>id_t = 3, description = ''call home'', completed = False\<rparr>" "[]" 3 "[]"]
    complete_then_undo [of sample_list
      "[\<lparr>id_t = 1, description = ''buy milk'', completed = False\<rparr>]"
      "\<lparr>id_t = 2, description = ''pay bills'', completed = True\<rparr>"
      "[\<lparr>id_t = 3, description = ''call home'', completed = False\<rparr>]" 2 "[]"]
  by (simp add: sample_list_def)

lemma main_case4_first:
  "tasks list = pre @ r # post \<Longrightarrow> id_t r = i \<Longrightarrow> i \<notin> id_t ` set pre \<Longrightarrow>
     main_case4 (list, stack) i =
       ((list\<lparr>tasks := pre @ post\<rparr>,
         pushAction stack ACTION_REMOVE i (Some (description r)) (completed r)),
        [Removed i (description r)])"
  by (simp add: main_case4_def removeTask_first)

lemma main_case4_absent:
  "i \<notin> id_t ` set (tasks list) \<Longrightarrow> main_case4 (list, stack) i = ((list, stack), [NotFound i])"
  by (simp add: main_case4_def removeTask_absent)

lemma main_case1_eq:
  "main_case1 (list, stack) d =
     ((list\<lparr>tasks := tasks list @ [\<lparr>id_t = next_id list, description = d, completed = False\<rparr>],
            next_id := next_id list + 1\<rparr>,
       pushAction stack ACTION_ADD (next_id list) (Some d) False),
      [Added d (next_id list)])"
  by (simp add: main_case1_def addTask_def createTask_def Let_def)

text \<open>
  Claim C2. For every list, history and task \<open>t\<close> of the list, removing the id of
  \<open>t\<close> through \<open>case 4\<close> and undoing at once through \<open>case 5\<close> gives a list that
  holds a task with the id, the description and the completed flag of \<open>t\<close>. The task
  removed and put back is the first one with that id; it comes back at the end of the
  list, the other tasks keep their order, and the history is the one from before.
\<close>

theorem remove_then_undo:
  "t \<in> set (tasks list) \<longrightarrow>
     (\<exists>pre r post list1 stack1 list2.
        tasks list = pre @ r # post \<and> id_t r = id_t t \<and> id_t t \<notin> id_t ` set pre \<and>
        main_case4 (list, stack) (id_t t) = ((list1, stack1), [Removed (id_t t) (description r)]) \<and>
        tasks list1 = pre @ post \<and>
        main_case5 (list1, stack1) =
          Inr ((list2, stack), [Undoing, UndoneRemove (description r) (id_t t)]) \<and>
        tasks list2 = pre @ post @ [r] \<and>
        t \<in> set (tasks list2))"
proof
  assume present: "t \<in> set (tasks list)"
  then have "id_t t \<in> id_t ` set (tasks list)" by simp
  then obtain pre r post where
    split: "tasks list = pre @ r # post" "id_t r = id_t t" "id_t t \<notin> id_t ` set pre"
    by (rule first_with_id)
  let ?list1 = "list\<lparr>tasks := pre @ post\<rparr>"
  let ?a = "\<lparr>type = ACTION_REMOVE, task_id = id_t t, task_description = Some (description r),
             was_completed = completed r\<rparr>"
  let ?list2 = "?list1\<lparr>tasks := tasks ?list1 @
                    [\<lparr>id_t = task_id ?a, description = description r,
                      completed = was_completed ?a\<rparr>],
                  next_id := (if sint (next_id ?list1) \<le> sint (task_id ?a) then task_id ?a + 1
                              else next_id ?list1)\<rparr>"
  have removed: "main_case4 (list, stack) (id_t t) =
      ((?list1, ?a # stack), [Removed (id_t t) (description r)])"
    using split by (simp add: main_case4_first pushAction_def)
  have "undo_switch ?a ?list1 = Inr (?list2, [UndoneRemove (description r) (task_id ?a)])"
    by (rule undo_switch_remove) simp_all
  then have undone: "main_case5 (?list1, ?a # stack) =
      Inr ((?list2, stack), [Undoing, UndoneRemove (description r) (id_t t)])"
    by (simp add: main_case5_Cons)
  have same: "\<lparr>id_t = id_t t, description = description r, completed = completed r\<rparr> = r"
    using split(2) by simp
  have tasks2: "tasks ?list2 = pre @ post @ [r]"
    using same by simp
  from present split(1) have "t \<in> set (pre @ post @ [r])" by auto
  with tasks2 have "t \<in> set (tasks ?list2)" by simp
  with split removed undone tasks2
  show "\<exists>pre r post list1 stack1 list2.
        tasks list = pre @ r # post \<and> id_t r = id_t t \<and> id_t t \<notin> id_t ` set pre \<and>
        main_case4 (list, stack) (id_t t) = ((list1, stack1), [Removed (id_t t) (description r)]) \<and>
        tasks list1 = pre @ post \<and>
        main_case5 (list1, stack1) =
          Inr ((list2, stack), [Undoing, UndoneRemove (description r) (id_t t)]) \<and>
        tasks list2 = pre @ post @ [r] \<and>
        t \<in> set (tasks list2)"
    by (intro exI [of _ pre] exI [of _ r] exI [of _ post] exI [of _ ?list1]
        exI [of _ "?a # stack"] exI [of _ ?list2]) simp
qed

theorem remove_then_undo_witness:
  "\<lparr>id_t = 2, description = ''pay bills'', completed = True\<rparr> \<in> set (tasks sample_list) \<and>
   main_case4 (sample_list, []) 2 =
     ((sample_list\<lparr>tasks := [\<lparr>id_t = 1, description = ''buy milk'', completed = False\<rparr>,
                             \<lparr>id_t = 3, description = ''call home'', completed = False\<rparr>]\<rparr>,
       pushAction [] ACTION_REMOVE 2 (Some ''pay bills'') True),
      [Removed 2 ''pay bills'']) \<and>
   main_case5 (fst (main_case4 (sample_list, []) 2)) =
     Inr ((sample_list\<lparr>tasks := [\<lparr>id_t = 1, description = ''buy milk'', completed = False\<rparr>,
                                 \<lparr>id_t = 3, description = ''call home'', completed = False\<rparr>,
                                 \<lparr>id_t = 2, description = ''pay bills'', completed = True\<rparr>]\<rparr>,
           []),
          [Undoing, UndoneRemove ''pay bills'' 2])"
  using remove_then_undo [of "\<lparr>id_t = 2, description = ''pay bills'', completed = True\<rparr>"
      sample_list "[]"]
  by (simp add: sample_list_def main_case4_def removeTask_def main_case5_Cons pushAction_def
      undo_switch_def createTask_def)

text \<open>
  Claim C4, as the code has it. In a list where no task carries the id \<open>next_id\<close>
  (every list whose ids are below \<open>next_id\<close>), adding through \<open>case 1\<close> and undoing at
  once through \<open>case 5\<close> leaves exactly the tasks from before the add, in their order,
  and the history from before. \<open>next_id\<close> is not put back: it keeps the value that the
  add gave it, so the id of the undone task is not issued again; where \<open>next_id\<close> was
  below \<open>INT_MAX\<close> this value is one above the value from before the add.
\<close>

theorem add_then_undo:
  "next_id list \<notin> id_t ` set (tasks list) \<longrightarrow>
     (\<exists>list1 stack1 list2.
        main_case1 (list, stack) d = ((list1, stack1), [Added d (next_id list)]) \<and>
        tasks list1 =
          tasks list @ [\<lparr>id_t = next_id list, description = d, completed = False\<rparr>] \<and>
        main_case5 (list1, stack1) =
          Inr ((list2, stack), [Undoing, UndoneAdd (next_id list)]) \<and>
        list2 = list\<lparr>next_id := next_id list + 1\<rparr> \<and>
        tasks list2 = tasks list \<and>
        next_id list2 \<noteq> next_id list \<and>
        (sint (next_id list) < INT_MAX \<longrightarrow> sint (next_id list2) = sint (next_id list) + 1))"
proof
  assume fresh: "next_id list \<notin> id_t ` set (tasks list)"
  let ?new = "\<lparr>id_t = next_id list, description = d, completed = False\<rparr>"
  let ?list1 = "list\<lparr>tasks := tasks list @ [?new], next_id := next_id list + 1\<rparr>"
  let ?list2 = "list\<lparr>next_id := next_id list + 1\<rparr>"
  let ?a = "\<lparr>type = ACTION_ADD, task_id = next_id list, task_description = Some d,
             was_completed = False\<rparr>"
  have added: "main_case1 (list, stack) d = ((?list1, ?a # stack), [Added d (next_id list)])"
    by (simp add: main_case1_eq pushAction_def)
  have "undo_switch ?a ?list1 = Inr (?list1\<lparr>tasks := tasks list @ []\<rparr>, [UndoneAdd (task_id ?a)])"
    using fresh by (intro undo_switch_add_first [where t = ?new]) simp_all
  then have undone: "main_case5 (?list1, ?a # stack) =
      Inr ((?list2, stack), [Undoing, UndoneAdd (next_id list)])"
    by (simp add: main_case5_Cons)
  have moved: "next_id ?list2 \<noteq> next_id list"
    by simp
  have grown: "sint (next_id list) < INT_MAX \<longrightarrow> sint (next_id ?list2) = sint (next_id list) + 1"
    by (simp add: sint_Suc)
  from added undone moved grown
  show "\<exists>list1 stack1 list2.
        main_case1 (list, stack) d = ((list1, stack1), [Added d (next_id list)]) \<and>
        tasks list1 = tasks list @ [?new] \<and>
        main_case5 (list1, stack1) =
          Inr ((list2, stack), [Undoing, UndoneAdd (next_id list)]) \<and>
        list2 = list\<lparr>next_id := next_id list + 1\<rparr> \<and>
        tasks list2 = tasks list \<and>
        next_id list2 \<noteq> next_id list \<and>
        (sint (next_id list) < INT_MAX \<longrightarrow> sint (next_id list2) = sint (next_id list) + 1)"
    by (intro exI [of _ ?list1] exI [of _ "?a # stack"] exI [of _ ?list2]) simp
qed

theorem add_then_undo_witness:
  "next_id sample_list \<notin> id_t ` set (tasks sample_list) \<and>
   sint (next_id sample_list) < INT_MAX \<and>
   main_case1 (sample_list, []) ''water plants'' =
     ((sample_list\<lparr>tasks := tasks sample_list @
          [\<lparr>id_t = 4, description = ''water plants'', completed = False\<rparr>], next_id := 5\<rparr>,
       pushAction [] ACTION_ADD 4 (Some ''water plants'') False),
      [Added ''water plants'' 4]) \<and>
   main_case5 (fst (main_case1 (sample_list, []) ''water plants'')) =
     Inr ((sample_list\<lparr>next_id := 5\<rparr>, []), [Undoing, UndoneAdd 4]) \<and>
   sint (5 :: cint) = sint (next_id sample_list) + 1"
  using add_then_undo [of sample_list "[]" "''water plants''"]
  by (simp add: sample_list_def main_case1_eq INT_MAX_def)

text \<open>
  The condition on the list is needed. Where a task already carries the id \<open>next_id\<close>
  (a state that the counter reaches only after it has wrapped around), the undo after
  an add unlinks the first task with that id, which is the old one.
\<close>

lemma add_then_undo_stale_id:
  "main_case5 (fst (main_case1
       (\<lparr>tasks = [\<lparr>id_t = 1, description = ''old'', completed = False\<rparr>], next_id = 1\<rparr>, [])
       ''new'')) =
     Inr ((\<lparr>tasks = [\<lparr>id_t = 1, description = ''new'', completed = False\<rparr>], next_id = 2\<rparr>,
           []),
          [Undoing, UndoneAdd 1])"
  by (simp add: main_case1_eq main_case5_Cons pushAction_def undo_switch_def)

text \<open>
  The claim C4 as the spec words it, with \<open>next_id\<close> unchanged, fails on the first add
  of a run: \<open>next_id\<close> is 1 before the add and 2 after the undo.
\<close>

theorem add_then_undo_counterexample:
  "main_case5 (fst (main_case1 (initTaskList, initActionStack) ''x'')) =
     Inr ((\<lparr>tasks = [], next_id = 2\<rparr>, initActionStack), [Undoing, UndoneAdd 1]) \<and>
   next_id initTaskList = 1 \<and> (2 :: cint) \<noteq> 1"
  by (simp add: main_case1_eq main_case5_Cons pushAction_def initTaskList_def
      initActionStack_def undo_switch_def)

subsection \<open>Runs of adds\<close>

lemma main_loop_adds:
  "\<exists>list' stack' out.
     main_loop (map CmdAdd ds) (list, stack) = Inr ((list', stack'), out) \<and>
     added_ids out = map (\<lambda>k. next_id list + of_nat k) [0..<length ds] \<and>
     next_id list' = next_id list + of_nat (length ds)"
proof (induction ds arbitrary: list stack)
  case Nil
  show ?case by simp
next
  case (Cons d ds)
  let ?list1 = "list\<lparr>tasks := tasks list @ [\<lparr>id_t = next_id list, description = d, completed = False\<rparr>],
                     next_id := next_id list + 1\<rparr>"
  let ?stack1 = "pushAction stack ACTION_ADD (next_id list) (Some d) False"
  from Cons.IH [of ?list1 ?stack1] obtain list' stack' out where
    run: "main_loop (map CmdAdd ds) (?list1, ?stack1) = Inr ((list', stack'), out)"
    and ids: "added_ids out = map (\<lambda>k. next_id ?list1 + of_nat k) [0..<length ds]"
    and nxt: "next_id list' = next_id ?list1 + of_nat (length ds)"
    by blast
  have "main_loop (map CmdAdd (d # ds)) (list, stack) =
      Inr ((list', stack'), Added d (next_id list) # out)"
    using run by (simp add: main_step_def main_case1_eq)
  moreover have "added_ids (Added d (next_id list) # out) =
      map (\<lambda>k. next_id list + of_nat k) [0..<length (d # ds)]"
    using ids by (simp add: map_upt_Suc add.assoc del: upt_Suc)
  moreover have "next_id list' = next_id list + of_nat (length (d # ds))"
    using nxt by (simp add: add.assoc)
  ultimately show ?case by blast
qed

lemma strictly_increasing_from:
  assumes "sint (a :: cint) + int n \<le> INT_MAX + 1"
  shows "strictly_increasing (map (\<lambda>k. a + of_nat k) [0..<n])"
proof -
  have "sint (a + of_nat i) < sint (a + of_nat j)" if "i < j" "j < n" for i j
  proof -
    from that assms have "sint a + int i \<le> INT_MAX" "sint a + int j \<le> INT_MAX" by simp_all
    then have "sint (a + of_nat i) = sint a + int i" "sint (a + of_nat j) = sint a + int j"
      by (simp_all add: sint_add_of_nat)
    with that show ?thesis by simp
  qed
  then show ?thesis
    by (simp add: strictly_increasing_def sorted_wrt_map sorted_wrt_iff_nth_less)
qed

lemma strictly_increasing_distinct: "strictly_increasing js \<Longrightarrow> distinct js"
  unfolding strictly_increasing_def
  by (induction js) auto

text \<open>
  Claim C7, as the code has it. \<open>addTask\<close> always returns: the new task takes the id
  \<open>next_id\<close>, is appended at the end of the list with \<open>completed = false\<close>, and
  \<open>next_id\<close> is incremented (a 32-bit increment). A sequence of add commands issues the
  ids \<open>next_id\<close>, \<open>next_id + 1\<close>, ... in this order; they are strictly increasing and
  pairwise different as long as none of them goes beyond \<open>INT_MAX\<close>.
\<close>

theorem addTask_fresh_ids:
  "addTask list d =
     (list\<lparr>tasks := tasks list @ [\<lparr>id_t = next_id list, description = d, completed = False\<rparr>],
           next_id := next_id list + 1\<rparr>,
      [Added d (next_id list)]) \<and>
   (sint (next_id list) + int (length ds) \<le> INT_MAX + 1 \<longrightarrow>
      (\<exists>s' out. main_loop (map CmdAdd ds) (list, stack) = Inr (s', out) \<and>
         added_ids out = map (\<lambda>k. next_id list + of_nat k) [0..<length ds] \<and>
         strictly_increasing (added_ids out) \<and> distinct (added_ids out)))"
proof (intro conjI impI)
  show "addTask list d =
     (list\<lparr>tasks := tasks list @ [\<lparr>id_t = next_id list, description = d, completed = False\<rparr>],
           next_id := next_id list + 1\<rparr>,
      [Added d (next_id list)])"
    by (simp add: addTask_def createTask_def Let_def)
next
  assume bound: "sint (next_id list) + int (length ds) \<le> INT_MAX + 1"
  obtain list' stack' out where
    run: "main_loop (map CmdAdd ds) (list, stack) = Inr ((list', stack'), out)"
    and ids: "added_ids out = map (\<lambda>k. next_id list + of_nat k) [0..<length ds]"
    using main_loop_adds [of ds list stack] by blast
  from bound have inc: "strictly_increasing (added_ids out)"
    unfolding ids by (rule strictly_increasing_from)
  then have "distinct (added_ids out)" by (rule strictly_increasing_distinct)
  with run ids inc
  show "\<exists>s' out. main_loop (map CmdAdd ds) (list, stack) = Inr (s', out) \<and>
         added_ids out = map (\<lambda>k. next_id list + of_nat k) [0..<length ds] \<and>
         strictly_increasing (added_ids out) \<and> distinct (added_ids out)"
    by blast
qed

theorem addTask_fresh_ids_witness:
  "sint (next_id sample_list) + int (length [''water plants'', ''feed cat'']) \<le> INT_MAX + 1 \<and>
   addTask sample_list ''water plants'' =
     (sample_list\<lparr>tasks := tasks sample_list @
        [\<lparr>id_t = 4, description = ''water plants'', completed = False\<rparr>], next_id := 5\<rparr>,
      [Added ''water plants'' 4]) \<and>
   added_ids (printed (main_loop (map CmdAdd [''water plants'', ''feed cat'']) (sample_list, []))) =
     [4, 5] \<and>
   strictly_increasing [4, 5] \<and> distinct [4, 5 :: cint]"
  using addTask_fresh_ids [of sample_list "''water plants''" "[''water plants'', ''feed cat'']"
      "[]"]
  by (simp add: sample_list_def INT_MAX_def printed_def strictly_increasing_def
      main_step_def main_case1_eq)

text \<open>
  The claim C7 as the spec words it, for every sequence of add calls, fails on the
  2147483648 adds that follow \<open>initTaskList\<close>: the add number 2147483647 issues the id
  \<open>INT_MAX\<close>, its increment of \<open>next_id\<close> overflows, and the next add issues
  \<open>INT_MIN\<close>.
\<close>

theorem addTask_fresh_ids_counterexample:
  "added_ids (printed (main_loop (map CmdAdd (replicate 2147483648 ''a''))
       (initTaskList, initActionStack))) ! 2147483646 = 2147483647 \<and>
   added_ids (printed (main_loop (map CmdAdd (replicate 2147483648 ''a''))
       (initTaskList, initActionStack))) ! 2147483647 = - 2147483648 \<and>
   \<not> sint (2147483647 :: cint) < sint (- 2147483648 :: cint) \<and>
   \<not> strictly_increasing (added_ids (printed (main_loop (map CmdAdd (replicate 2147483648 ''a''))
       (initTaskList, initActionStack))))"
proof -
  let ?n = "2147483648 :: nat"
  let ?ids = "added_ids (printed (main_loop (map CmdAdd (replicate ?n ''a''))
       (initTaskList, initActionStack)))"
  obtain s' out where
    run: "main_loop (map CmdAdd (replicate ?n ''a'')) (initTaskList, initActionStack) = Inr (s', out)"
    and ids: "added_ids out = map (\<lambda>k. next_id initTaskList + of_nat k) [0..<length (replicate ?n ''a'')]"
    using main_loop_adds [of "replicate ?n ''a''" initTaskList initActionStack] by blast
  have all: "?ids = map (\<lambda>k. 1 + of_nat k) [0..<?n]"
    using run ids by (simp add: printed_def initTaskList_def)
  have len: "length ?ids = ?n"
    unfolding all by simp
  have a: "?ids ! 2147483646 = 2147483647"
    unfolding all by (subst nth_map) simp_all
  have b: "?ids ! 2147483647 = - 2147483648"
    unfolding all by (subst nth_map) simp_all
  have c: "\<not> sint (2147483647 :: cint) < sint (- 2147483648 :: cint)"
    by simp
  have "\<not> strictly_increasing ?ids"
  proof
    assume "strictly_increasing ?ids"
    then have "sint (?ids ! 2147483646) < sint (?ids ! 2147483647)"
      unfolding strictly_increasing_def sorted_wrt_iff_nth_less using len by simp
    with a b c show False by simp
  qed
  with a b c show ?thesis by simp
qed

subsection \<open>The invariant\<close>

lemma added_ids_append: "added_ids (out @ out') = added_ids out @ added_ids out'"
  by (induction out rule: added_ids.induct) simp_all

lemma added_ids_listTasks: "added_ids (listTasks list) = []"
proof -
  have lines: "added_ids (map (\<lambda>t. TaskLine (id_t t) (completed t) (description t)) ts @
      [ListFooter]) = []" for ts :: "Task list"
    by (induction ts) simp_all
  show ?thesis by (simp add: listTasks_def lines)
qed

lemma main_step_invariant:
  assumes inv: "ids_below_next (list, stack)"
    and step: "main_step cmd (list, stack) = Inr ((list', stack'), out)"
    and room: "sint (next_id list) + int (count_adds [cmd]) \<le> INT_MAX"
  shows "ids_below_next (list', stack') \<and>
         sint (next_id list') = sint (next_id list) + int (count_adds [cmd]) \<and>
         (\<forall>i \<in> set (added_ids out). sint i < sint (next_id list'))"
proof (cases cmd)
  case (CmdAdd d)
  with room have "sint (next_id list) < INT_MAX" by simp
  then have "sint (next_id list + 1) = sint (next_id list) + 1" by (rule sint_Suc)
  with inv step CmdAdd show ?thesis
    by (fastforce simp: main_step_def main_case1_eq ids_below_next_def pushAction_def)
next
  case CmdList
  with inv step show ?thesis
    by (auto simp: main_step_def added_ids_listTasks)
next
  case (CmdComplete i)
  show ?thesis
  proof (cases "i \<in> id_t ` set (tasks list)")
    case False
    with inv step CmdComplete show ?thesis
      by (auto simp: main_step_def main_case3_absent)
  next
    case True
    then obtain pre t post where
      split: "tasks list = pre @ t # post" "id_t t = i" "i \<notin> id_t ` set pre"
      by (rule first_with_id)
    from inv step CmdComplete split(1,2) show ?thesis
      by (auto simp: main_step_def main_case3_first [OF split] ids_below_next_def
          pushAction_def split: if_splits)
  qed
next
  case (CmdRemove i)
  show ?thesis
  proof (cases "i \<in> id_t ` set (tasks list)")
    case False
    with inv step CmdRemove show ?thesis
      by (auto simp: main_step_def main_case4_absent)
  next
    case True
    then obtain pre t post where
      split: "tasks list = pre @ t # post" "id_t t = i" "i \<notin> id_t ` set pre"
      by (rule first_with_id)
    from inv step CmdRemove split(1,2) show ?thesis
      by (auto simp: main_step_def main_case4_first [OF split] ids_below_next_def
          pushAction_def)
  qed
next
  case CmdUndo
  show ?thesis
  proof (cases stack)
    case Nil
    with inv step CmdUndo show ?thesis
      by (auto simp: main_step_def main_case5_Nil)
  next
    case (Cons a rest)
    from inv Cons have below: "sint (task_id a) < sint (next_id list)"
      and inv': "ids_below_next (list, rest)"
      by (simp_all add: ids_below_next_def)
    from step CmdUndo Cons obtain out' where
      sw: "undo_switch a list = Inr (list', out')" and st: "stack' = rest"
      and out: "out = Undoing # out'"
      by (auto simp: main_step_def main_case5_Cons split: sum.splits)
    show ?thesis
    proof (cases "type a")
      case ACTION_ADD
      show ?thesis
      proof (cases "task_id a \<in> id_t ` set (tasks list)")
        case False
        with ACTION_ADD sw inv' st out CmdUndo show ?thesis
          by (auto simp: undo_switch_add_missing)
      next
        case True
        then obtain pre t post where
          split: "tasks list = pre @ t # post" "id_t t = task_id a" "task_id a \<notin> id_t ` set pre"
          by (rule first_with_id)
        from sw inv' st out CmdUndo split(1) show ?thesis
          by (auto simp: undo_switch_add_first [OF ACTION_ADD split] ids_below_next_def)
      qed
    next
      case ACTION_COMPLETE
      show ?thesis
      proof (cases "task_id a \<in> id_t ` set (tasks list)")
        case False
        with ACTION_COMPLETE sw inv' st out CmdUndo show ?thesis
          by (auto simp: undo_switch_complete_missing)
      next
        case True
        then obtain pre t post where
          split: "tasks list = pre @ t # post" "id_t t = task_id a" "task_id a \<notin> id_t ` set pre"
          by (rule first_with_id)
        from sw inv' st out CmdUndo split(1) show ?thesis
          by (auto simp: undo_switch_complete_first [OF ACTION_COMPLETE split] ids_below_next_def)
      qed
    next
      case ACTION_REMOVE
      show ?thesis
      proof (cases "task_description a")
        case None
        with ACTION_REMOVE sw show ?thesis by (simp add: undo_switch_def)
      next
        case (Some d)
        from sw inv' st out CmdUndo below show ?thesis
          by (auto simp: undo_switch_remove [OF ACTION_REMOVE Some] ids_below_next_def)
      qed
    qed
  qed
qed

lemma main_loop_invariant:
  assumes "ids_below_next (list, stack)"
    and "main_loop cmds (list, stack) = Inr ((list', stack'), out)"
    and "sint (next_id list) + int (count_adds cmds) \<le> INT_MAX"
  shows "ids_below_next (list', stack') \<and>
         sint (next_id list') = sint (next_id list) + int (count_adds cmds) \<and>
         (\<forall>i \<in> set (added_ids out). sint i < sint (next_id list'))"
  using assms
proof (induction cmds arbitrary: list stack out)
  case Nil
  then show ?case by simp
next
  case (Cons cmd cmds)
  from Cons.prems(2) obtain list1 stack1 out1 out2 where
    step: "main_step cmd (list, stack) = Inr ((list1, stack1), out1)"
    and rest: "main_loop cmds (list1, stack1) = Inr ((list', stack'), out2)"
    and out: "out = out1 @ out2"
    by (auto split: sum.splits)
  have adds: "count_adds (cmd # cmds) = count_adds [cmd] + count_adds cmds"
    by (cases cmd) simp_all
  with Cons.prems(3) have room1: "sint (next_id list) + int (count_adds [cmd]) \<le> INT_MAX"
    by simp
  note one = main_step_invariant [OF Cons.prems(1) step room1]
  from one Cons.prems(3) adds
  have room2: "sint (next_id list1) + int (count_adds cmds) \<le> INT_MAX"
    by simp
  from one have inv1: "ids_below_next (list1, stack1)" by simp
  note more = Cons.IH [OF inv1 rest room2]
  from one more adds out show ?case
    by (auto simp: added_ids_append)
qed

lemma main_step_returns:
  assumes "removes_described stack"
  shows "\<exists>list' stack' out.
     main_step cmd (list, stack) = Inr ((list', stack'), out) \<and> removes_described stack'"
proof (cases cmd)
  case (CmdAdd d)
  with assms show ?thesis
    by (simp add: main_step_def main_case1_eq pushAction_def removes_described_def)
next
  case CmdList
  with assms show ?thesis by (simp add: main_step_def)
next
  case (CmdComplete i)
  with assms show ?thesis
    by (auto simp: main_step_def main_case3_def pushAction_def removes_described_def
        split: prod.splits list.splits bool.splits)
next
  case (CmdRemove i)
  with assms show ?thesis
    by (auto simp: main_step_def main_case4_def pushAction_def removes_described_def
        split: prod.splits option.splits)
next
  case CmdUndo
  show ?thesis
  proof (cases stack)
    case Nil
    with CmdUndo show ?thesis
      by (simp add: main_step_def main_case5_Nil removes_described_def)
  next
    case (Cons a rest)
    with assms have "type a = ACTION_REMOVE \<longrightarrow> task_description a \<noteq> None"
      and rest: "removes_described rest"
      by (simp_all add: removes_described_def)
    then obtain list' out where "undo_switch a list = Inr (list', out)"
      using undo_switch_returns by blast
    with CmdUndo Cons rest show ?thesis
      by (simp add: main_step_def main_case5_Cons)
  qed
qed

lemma main_loop_returns:
  "removes_described stack \<Longrightarrow>
     \<exists>list' stack' out.
       main_loop cmds (list, stack) = Inr ((list', stack'), out) \<and> removes_described stack'"
proof (induction cmds arbitrary: list stack)
  case Nil
  then show ?case by simp
next
  case (Cons cmd cmds)
  from main_step_returns [OF Cons.prems] obtain list1 stack1 out1 where
    step: "main_step cmd (list, stack) = Inr ((list1, stack1), out1)"
    and d1: "removes_described stack1"
    by blast
  from Cons.IH [OF d1] obtain list' stack' out where
    "main_loop cmds (list1, stack1) = Inr ((list', stack'), out)" "removes_described stack'"
    by blast
  with step show ?case by simp
qed

lemma undoLastAction_remove:
  assumes "type a = ACTION_REMOVE" "task_description a = Some d" "sint (task_id a) < INT_MAX"
  shows "\<exists>list2.
     undoLastAction list (a # stack) = Inr (list2, stack, [Undoing, UndoneRemove d (task_id a)]) \<and>
     tasks list2 =
       tasks list @ [\<lparr>id_t = task_id a, description = d, completed = was_completed a\<rparr>] \<and>
     sint (next_id list2) = max (sint (next_id list)) (sint (task_id a) + 1)"
proof -
  let ?list2 = "list\<lparr>tasks := tasks list @
                    [\<lparr>id_t = task_id a, description = d, completed = was_completed a\<rparr>],
                 next_id := (if sint (next_id list) \<le> sint (task_id a) then task_id a + 1
                             else next_id list)\<rparr>"
  have "undoLastAction list (a # stack) = Inr (?list2, stack, [Undoing, UndoneRemove d (task_id a)])"
    by (simp add: undoLastAction_Cons undo_switch_remove [OF assms(1,2)])
  moreover have "sint (next_id ?list2) = max (sint (next_id list)) (sint (task_id a) + 1)"
    using sint_Suc [OF assms(3)] by simp
  ultimately show ?thesis by (intro exI [of _ ?list2]) simp
qed

lemma final_state_main_loop_Cons:
  "main_step cmd s = Inr (s', out) \<Longrightarrow>
     final_state (main_loop (cmd # cmds) s) = final_state (main_loop cmds s')"
  by (simp add: final_state_def split: sum.splits prod.splits)

lemma add_undo_cycles:
  "final_state (main_loop (concat (replicate n [CmdAdd d, CmdUndo]))
       (\<lparr>tasks = [], next_id = k\<rparr>, [])) =
     Some (\<lparr>tasks = [], next_id = k + of_nat n\<rparr>, [])"
proof (induction n arbitrary: k)
  case 0
  show ?case by (simp add: final_state_def)
next
  case (Suc n)
  let ?s0 = "(\<lparr>tasks = [], next_id = k\<rparr>, []) :: state"
  let ?s1 = "(\<lparr>tasks = [\<lparr>id_t = k, description = d, completed = False\<rparr>], next_id = k + 1\<rparr>,
              [\<lparr>type = ACTION_ADD, task_id = k, task_description = Some d,
                was_completed = False\<rparr>]) :: state"
  let ?s2 = "(\<lparr>tasks = [], next_id = k + 1\<rparr>, []) :: state"
  have add: "main_step (CmdAdd d) ?s0 = Inr (?s1, [Added d k])"
    by (simp add: main_step_def main_case1_eq pushAction_def)
  have undo: "main_step CmdUndo ?s1 = Inr (?s2, [Undoing, UndoneAdd k])"
    by (simp add: main_step_def main_case5_Cons undo_switch_def)
  have "final_state (main_loop (concat (replicate (Suc n) [CmdAdd d, CmdUndo])) ?s0) =
      final_state (main_loop (concat (replicate n [CmdAdd d, CmdUndo])) ?s2)"
    by (simp only: replicate_Suc concat.simps append.simps
        final_state_main_loop_Cons [OF add] final_state_main_loop_Cons [OF undo])
  also have "\<dots> = Some (\<lparr>tasks = [], next_id = k + 1 + of_nat n\<rparr>, [])"
    by (rule Suc.IH)
  finally show ?case by (simp add: add.assoc)
qed

text \<open>
  Claim C3, as the code has it. Start from a state in which every id of the list and
  of the history is below \<open>next_id\<close> (and every recorded remove has its description),
  and run any commands (add, list, complete, remove, undo, in any order) whose adds
  keep \<open>next_id\<close> within \<open>INT_MAX\<close>. The run returns; after it every id of the list
  and of the history is below \<open>next_id\<close> again, \<open>next_id\<close> has not gone down, and every
  id that the run issued is below \<open>next_id\<close>. A run of one command is one operation. The reinsertion done by undo of a remove, for an id below
  \<open>INT_MAX\<close>, appends the task under exactly that id and leaves \<open>next_id\<close> at the
  maximum of \<open>next_id\<close> and the id plus one, so the add that follows takes another id.
\<close>

theorem next_id_above_issued_ids:
  "(ids_below_next (list, stack) \<and> removes_described stack \<and>
    sint (next_id list) + int (count_adds cmds) \<le> INT_MAX \<longrightarrow>
      (\<exists>list' stack' out.
         main_loop cmds (list, stack) = Inr ((list', stack'), out) \<and>
         ids_below_next (list', stack') \<and> removes_described stack' \<and>
         sint (next_id list) \<le> sint (next_id list') \<and>
         (\<forall>i \<in> set (added_ids out). sint i < sint (next_id list')))) \<and>
   (type a = ACTION_REMOVE \<and> task_description a = Some d \<and> sint (task_id a) < INT_MAX \<longrightarrow>
      (\<exists>list2.
         undoLastAction list (a # stack) =
           Inr (list2, stack, [Undoing, UndoneRemove d (task_id a)]) \<and>
         tasks list2 =
           tasks list @ [\<lparr>id_t = task_id a, description = d, completed = was_completed a\<rparr>] \<and>
         sint (next_id list2) = max (sint (next_id list)) (sint (task_id a) + 1) \<and>
         snd (addTask list2 d') = [Added d' (next_id list2)] \<and>
         next_id list2 \<noteq> task_id a))"
proof (intro conjI impI)
  assume start: "ids_below_next (list, stack) \<and> removes_described stack \<and>
    sint (next_id list) + int (count_adds cmds) \<le> INT_MAX"
  then obtain list' stack' out where
    run: "main_loop cmds (list, stack) = Inr ((list', stack'), out)"
    and described: "removes_described stack'"
    using main_loop_returns [of stack cmds list] by blast
  from start run have "ids_below_next (list', stack') \<and>
         sint (next_id list') = sint (next_id list) + int (count_adds cmds) \<and>
         (\<forall>i \<in> set (added_ids out). sint i < sint (next_id list'))"
    using main_loop_invariant [of list stack cmds list' stack' out] by blast
  then have inv': "ids_below_next (list', stack')"
    and grown: "sint (next_id list') = sint (next_id list) + int (count_adds cmds)"
    and issued: "\<forall>i \<in> set (added_ids out). sint i < sint (next_id list')"
    by blast+
  from grown have "sint (next_id list) \<le> sint (next_id list')" by simp
  with run described inv' issued
  show "\<exists>list' stack' out.
         main_loop cmds (list, stack) = Inr ((list', stack'), out) \<and>
         ids_below_next (list', stack') \<and> removes_described stack' \<and>
         sint (next_id list) \<le> sint (next_id list') \<and>
         (\<forall>i \<in> set (added_ids out). sint i < sint (next_id list'))"
    by blast
next
  assume "type a = ACTION_REMOVE \<and> task_description a = Some d \<and> sint (task_id a) < INT_MAX"
  then obtain list2 where
    undo: "undoLastAction list (a # stack) =
        Inr (list2, stack, [Undoing, UndoneRemove d (task_id a)])"
    and tasks2: "tasks list2 =
        tasks list @ [\<lparr>id_t = task_id a, description = d, completed = was_completed a\<rparr>]"
    and next2: "sint (next_id list2) = max (sint (next_id list)) (sint (task_id a) + 1)"
    using undoLastAction_remove [of a d list stack] by blast
  from next2 have "sint (task_id a) < sint (next_id list2)" by simp
  then have "next_id list2 \<noteq> task_id a" by auto
  moreover have "snd (addTask list2 d') = [Added d' (next_id list2)]"
    by (simp add: addTask_def createTask_def Let_def)
  ultimately show "\<exists>list2.
         undoLastAction list (a # stack) =
           Inr (list2, stack, [Undoing, UndoneRemove d (task_id a)]) \<and>
         tasks list2 =
           tasks list @ [\<lparr>id_t = task_id a, description = d, completed = was_completed a\<rparr>] \<and>
         sint (next_id list2) = max (sint (next_id list)) (sint (task_id a) + 1) \<and>
         snd (addTask list2 d') = [Added d' (next_id list2)] \<and>
         next_id list2 \<noteq> task_id a"
    using undo tasks2 next2 by blast
qed

theorem next_id_above_issued_ids_witness:
  "(ids_below_next (initTaskList, initActionStack) \<and> removes_described initActionStack \<and>
    sint (next_id initTaskList) +
      int (count_adds [CmdAdd ''buy milk'', CmdAdd ''pay bills'', CmdComplete 1, CmdRemove 2,
             CmdUndo, CmdUndo]) \<le> INT_MAX \<and>
    main_loop [CmdAdd ''buy milk'', CmdAdd ''pay bills'', CmdComplete 1, CmdRemove 2,
        CmdUndo, CmdUndo] (initTaskList, initActionStack) =
      Inr ((\<lparr>tasks = [\<lparr>id_t = 1, description = ''buy milk'', completed = False\<rparr>,
                       \<lparr>id_t = 2, description = ''pay bills'', completed = False\<rparr>],
              next_id = 3\<rparr>,
            [\<lparr>type = ACTION_ADD, task_id = 2, task_description = Some ''pay bills'',
               was_completed = False\<rparr>,
             \<lparr>type = ACTION_ADD, task_id = 1, task_description = Some ''buy milk'',
               was_completed = False\<rparr>]),
           [Added ''buy milk'' 1, Added ''pay bills'' 2, MarkedCompleted 1,
            Removed 2 ''pay bills'', Undoing, UndoneRemove ''pay bills'' 2,
            Undoing, UndoneComplete 1 False]) \<and>
    ids_below_next
      (\<lparr>tasks = [\<lparr>id_t = 1, description = ''buy milk'', completed = False\<rparr>,
                 \<lparr>id_t = 2, description = ''pay bills'', completed = False\<rparr>],
        next_id = 3\<rparr>,
       [\<lparr>type = ACTION_ADD, task_id = 2, task_description = Some ''pay bills'',
          was_completed = False\<rparr>,
        \<lparr>type = ACTION_ADD, task_id = 1, task_description = Some ''buy milk'',
          was_completed = False\<rparr>]) \<and>
    sint (1 :: cint) < sint (3 :: cint) \<and> sint (2 :: cint) < sint (3 :: cint)) \<and>
   (sint (5 :: cint) < INT_MAX \<and>
    undoLastAction initTaskList
      [\<lparr>type = ACTION_REMOVE, task_id = 5, task_description = Some ''pay bills'',
         was_completed = True\<rparr>] =
      Inr (\<lparr>tasks = [\<lparr>id_t = 5, description = ''pay bills'', completed = True\<rparr>],
             next_id = 6\<rparr>, [], [Undoing, UndoneRemove ''pay bills'' 5]) \<and>
    sint (6 :: cint) = max (sint (next_id initTaskList)) (sint (5 :: cint) + 1) \<and>
    snd (addTask \<lparr>tasks = [\<lparr>id_t = 5, description = ''pay bills'', completed = True\<rparr>],
                   next_id = 6\<rparr> ''new'') = [Added ''new'' 6])"
  using next_id_above_issued_ids [where list = initTaskList and stack = initActionStack
      and cmds = "[CmdAdd ''buy milk'', CmdAdd ''pay bills'', CmdComplete 1, CmdRemove 2,
        CmdUndo, CmdUndo]"
      and a = "\<lparr>type = ACTION_REMOVE, task_id = 5, task_description = Some ''pay bills'',
         was_completed = True\<rparr>" and d = "''pay bills''" and d' = "''new''"]
  by (simp add: initTaskList_def initActionStack_def INT_MAX_def ids_below_next_def
      removes_described_def main_step_def main_case1_eq main_case3_def main_case4_def
      main_case5_Cons completeTask_def removeTask_def undo_switch_def pushAction_def
      createTask_def addTask_def undoLastAction_Cons)

text \<open>
  The claim C3 as the spec words it, for every operation, fails for the add at
  \<open>next_id = INT_MAX\<close>. The state is reached from the initial one by 2147483646 adds,
  each undone at once; it satisfies the invariant; the add issues the id \<open>INT_MAX\<close>
  and its increment overflows, which leaves \<open>next_id\<close> below the id just issued.
\<close>

theorem next_id_above_issued_ids_counterexample:
  "final_state (main_loop (concat (replicate 2147483646 [CmdAdd ''a'', CmdUndo]))
       (initTaskList, initActionStack)) =
     Some (\<lparr>tasks = [], next_id = 2147483647\<rparr>, []) \<and>
   ids_below_next (\<lparr>tasks = [], next_id = 2147483647\<rparr>, []) \<and>
   main_step (CmdAdd ''a'') (\<lparr>tasks = [], next_id = 2147483647\<rparr>, []) =
     Inr ((\<lparr>tasks = [\<lparr>id_t = 2147483647, description = ''a'', completed = False\<rparr>],
             next_id = - 2147483648\<rparr>,
           [\<lparr>type = ACTION_ADD, task_id = 2147483647, task_description = Some ''a'',
              was_completed = False\<rparr>]),
          [Added ''a'' 2147483647]) \<and>
   \<not> ids_below_next
       (\<lparr>tasks = [\<lparr>id_t = 2147483647, description = ''a'', completed = False\<rparr>],
          next_id = - 2147483648\<rparr>,
        [\<lparr>type = ACTION_ADD, task_id = 2147483647, task_description = Some ''a'',
           was_completed = False\<rparr>])"
proof -
  have "final_state (main_loop (concat (replicate 2147483646 [CmdAdd ''a'', CmdUndo]))
       (initTaskList, initActionStack)) =
     Some (\<lparr>tasks = [], next_id = 1 + of_nat 2147483646\<rparr>, [])"
    unfolding initTaskList_def initActionStack_def by (rule add_undo_cycles)
  then have reach: "final_state (main_loop (concat (replicate 2147483646 [CmdAdd ''a'', CmdUndo]))
       (initTaskList, initActionStack)) =
     Some (\<lparr>tasks = [], next_id = 2147483647\<rparr>, [])"
    by simp
  show ?thesis
    unfolding reach
    by (simp add: ids_below_next_def main_step_def main_case1_eq pushAction_def)
qed

subsection \<open>The order of undo\<close>

lemma same_id_same_task:
  "distinct (map id_t ts) \<Longrightarrow> x \<in> set ts \<Longrightarrow> y \<in> set ts \<Longrightarrow> id_t x = id_t y \<Longrightarrow> x = y"
  by (meson distinct_map inj_on_eq_iff)

lemma distinct_ids_mset:
  "mset ts = mset ts' \<Longrightarrow> distinct (map id_t ts) = distinct (map id_t ts')"
proof -
  assume "mset ts = mset ts'"
  then have "mset (map id_t ts) = mset (map id_t ts')" by (metis mset_map)
  then show ?thesis by (rule mset_eq_imp_distinct_iff)
qed

text \<open>A command that pushed an action on the history is an add, a complete of a
  pending task or a remove of a present task.\<close>

lemma recorded_cases:
  assumes "main_step cmd (list, stack) = Inr ((list', a # stack), out)"
  obtains
    (add) d where "cmd = CmdAdd d"
      "list' = list\<lparr>tasks := tasks list @
          [\<lparr>id_t = next_id list, description = d, completed = False\<rparr>],
        next_id := next_id list + 1\<rparr>"
      "a = \<lparr>type = ACTION_ADD, task_id = next_id list, task_description = Some d,
            was_completed = False\<rparr>"
  | (complete) i pre t post where "cmd = CmdComplete i"
      "tasks list = pre @ t # post" "id_t t = i" "i \<notin> id_t ` set pre" "\<not> completed t"
      "list' = list\<lparr>tasks := pre @ t\<lparr>completed := True\<rparr> # post\<rparr>"
      "a = \<lparr>type = ACTION_COMPLETE, task_id = i, task_description = None,
            was_completed = False\<rparr>"
  | (remove) i pre t post where "cmd = CmdRemove i"
      "tasks list = pre @ t # post" "id_t t = i" "i \<notin> id_t ` set pre"
      "list' = list\<lparr>tasks := pre @ post\<rparr>"
      "a = \<lparr>type = ACTION_REMOVE, task_id = i, task_description = Some (description t),
            was_completed = completed t\<rparr>"
proof (cases cmd)
  case (CmdAdd d)
  with assms show thesis
    by (intro add [of d]) (auto simp: main_step_def main_case1_eq pushAction_def)
next
  case CmdList
  with assms show thesis by (simp add: main_step_def)
next
  case (CmdComplete i)
  show thesis
  proof (cases "i \<in> id_t ` set (tasks list)")
    case False
    with assms CmdComplete show thesis by (simp add: main_step_def main_case3_absent)
  next
    case True
    then obtain pre t post where
      split: "tasks list = pre @ t # post" "id_t t = i" "i \<notin> id_t ` set pre"
      by (rule first_with_id)
    from assms CmdComplete have pending: "\<not> completed t"
      by (auto simp: main_step_def main_case3_first [OF split] split: if_splits)
    with assms CmdComplete show thesis
      by (intro complete [OF CmdComplete split])
        (auto simp: main_step_def main_case3_first [OF split] pushAction_def)
  qed
next
  case (CmdRemove i)
  show thesis
  proof (cases "i \<in> id_t ` set (tasks list)")
    case False
    with assms CmdRemove show thesis by (simp add: main_step_def main_case4_absent)
  next
    case True
    then obtain pre t post where
      split: "tasks list = pre @ t # post" "id_t t = i" "i \<notin> id_t ` set pre"
      by (rule first_with_id)
    from assms CmdRemove show thesis
      by (intro remove [OF CmdRemove split])
        (auto simp: main_step_def main_case4_first [OF split] pushAction_def)
  qed
next
  case CmdUndo
  show thesis
  proof (cases stack)
    case Nil
    with assms CmdUndo show thesis by (simp add: main_step_def main_case5_Nil)
  next
    case (Cons b rest)
    with assms CmdUndo show thesis
      by (auto simp: main_step_def main_case5_Cons split: sum.splits)
  qed
qed

lemma recorded_step_invariant:
  assumes inv: "ids_below_next (list, stack)"
    and dist: "distinct (map id_t (tasks list))"
    and room: "sint (next_id list) + int (count_adds [cmd]) \<le> INT_MAX"
    and step: "main_step cmd (list, stack) = Inr ((list', a # stack), out)"
  shows "ids_below_next (list', a # stack) \<and> distinct (map id_t (tasks list')) \<and>
         sint (next_id list') = sint (next_id list) + int (count_adds [cmd])"
proof -
  note kept = main_step_invariant [OF inv step room]
  have "distinct (map id_t (tasks list'))"
    using step
  proof (cases rule: recorded_cases)
    case (add d)
    from inv have "next_id list \<notin> id_t ` set (tasks list)"
      by (auto simp: ids_below_next_def)
    with dist add show ?thesis by simp
  next
    case (complete i pre t post)
    with dist show ?thesis by simp
  next
    case (remove i pre t post)
    with dist show ?thesis by simp
  qed
  with kept show ?thesis by simp
qed

lemma undo_reverses_recorded:
  assumes inv: "ids_below_next (list, stack)"
    and dist: "distinct (map id_t (tasks list))"
    and step: "main_step cmd (list, stack) = Inr ((list', a # stack), out)"
    and perm: "mset (tasks cur) = mset (tasks list')"
  shows "\<exists>cur' m. undoLastAction cur (a # rest) = Inr (cur', rest, [Undoing, m]) \<and>
           undone_line a = Some m \<and> mset (tasks cur') = mset (tasks list)"
  using step
proof (cases rule: recorded_cases)
  case (add d)
  let ?new = "\<lparr>id_t = next_id list, description = d, completed = False\<rparr>"
  from inv have fresh: "next_id list \<notin> id_t ` set (tasks list)"
    by (auto simp: ids_below_next_def)
  from perm add have bag: "mset (tasks cur) = mset (tasks list) + {#?new#}" by simp
  have "?new \<in># mset (tasks cur)" unfolding bag by simp
  then have new_in: "?new \<in> set (tasks cur)" by simp
  from dist fresh add have "distinct (map id_t (tasks list'))" by simp
  with distinct_ids_mset [OF perm] have dist_cur: "distinct (map id_t (tasks cur))"
    by simp
  from new_in have "id_t ?new \<in> id_t ` set (tasks cur)" by (rule imageI)
  then have "next_id list \<in> id_t ` set (tasks cur)" by simp
  then obtain pre t post where
    split: "tasks cur = pre @ t # post" "id_t t = next_id list" "next_id list \<notin> id_t ` set pre"
    by (rule first_with_id)
  from split(1) have "t \<in> set (tasks cur)" by simp
  with dist_cur new_in split(2) have t: "t = ?new"
    by (intro same_id_same_task [of "tasks cur"]) simp_all
  have "undo_switch a cur = Inr (cur\<lparr>tasks := pre @ post\<rparr>, [UndoneAdd (task_id a)])"
    using add(3) split by (intro undo_switch_add_first [where t = t]) simp_all
  then have "undoLastAction cur (a # rest) =
      Inr (cur\<lparr>tasks := pre @ post\<rparr>, rest, [Undoing, UndoneAdd (task_id a)])"
    by (simp add: undoLastAction_Cons)
  moreover have "undone_line a = Some (UndoneAdd (task_id a))"
    using add(3) by (simp add: undone_line_def)
  moreover have "mset (tasks (cur\<lparr>tasks := pre @ post\<rparr>)) = mset (tasks list)"
    using bag split(1) t by simp
  ultimately show ?thesis by blast
next
  case (complete i pre t post)
  let ?done = "t\<lparr>completed := True\<rparr>"
  from perm complete have bag: "mset (tasks cur) = mset (pre @ ?done # post)" by simp
  have "?done \<in># mset (tasks cur)" unfolding bag by simp
  then have done_in: "?done \<in> set (tasks cur)" by simp
  from dist complete have "distinct (map id_t (tasks list'))" by simp
  with distinct_ids_mset [OF perm] have dist_cur: "distinct (map id_t (tasks cur))"
    by simp
  from done_in have "id_t ?done \<in> id_t ` set (tasks cur)" by (rule imageI)
  with complete(3) have "i \<in> id_t ` set (tasks cur)" by simp
  then obtain pre' u post' where
    split: "tasks cur = pre' @ u # post'" "id_t u = i" "i \<notin> id_t ` set pre'"
    by (rule first_with_id)
  from split(1) have "u \<in> set (tasks cur)" by simp
  with dist_cur done_in split(2) complete(3) have u: "u = ?done"
    by (intro same_id_same_task [of "tasks cur"]) simp_all
  from complete(5) have restored: "?done\<lparr>completed := False\<rparr> = t" by simp
  have "undo_switch a cur =
      Inr (cur\<lparr>tasks := pre' @ u\<lparr>completed := was_completed a\<rparr> # post'\<rparr>,
           [UndoneComplete (task_id a) (was_completed a)])"
    using complete(7) split by (intro undo_switch_complete_first) simp_all
  then have "undoLastAction cur (a # rest) =
      Inr (cur\<lparr>tasks := pre' @ t # post'\<rparr>, rest,
           [Undoing, UndoneComplete (task_id a) (was_completed a)])"
    using complete(7) u restored by (simp add: undoLastAction_Cons)
  moreover have "undone_line a = Some (UndoneComplete (task_id a) (was_completed a))"
    using complete(7) by (simp add: undone_line_def)
  moreover have "mset (tasks (cur\<lparr>tasks := pre' @ t # post'\<rparr>)) = mset (tasks list)"
  proof -
    from bag split(1) u have "mset (pre' @ post') + {#?done#} = mset (pre @ post) + {#?done#}"
      by simp
    then have "mset (pre' @ post') = mset (pre @ post)" by simp
    with complete(2) show ?thesis by simp
  qed
  ultimately show ?thesis by blast
next
  case (remove i pre t post)
  let ?cur' = "cur\<lparr>tasks := tasks cur @ [t],
                 next_id := (if sint (next_id cur) \<le> sint (task_id a) then task_id a + 1
                             else next_id cur)\<rparr>"
  have same: "\<lparr>id_t = i, description = description t, completed = completed t\<rparr> = t"
    using remove(3) by simp
  have "undo_switch a cur =
      Inr (cur\<lparr>tasks := tasks cur @
               [\<lparr>id_t = task_id a, description = description t, completed = was_completed a\<rparr>],
             next_id := (if sint (next_id cur) \<le> sint (task_id a) then task_id a + 1
                         else next_id cur)\<rparr>,
           [UndoneRemove (description t) (task_id a)])"
    using remove(6) by (intro undo_switch_remove) simp_all
  then have "undoLastAction cur (a # rest) =
      Inr (?cur', rest, [Undoing, UndoneRemove (description t) (task_id a)])"
    using remove(6) same by (simp add: undoLastAction_Cons)
  moreover have "undone_line a = Some (UndoneRemove (description t) (task_id a))"
    using remove(6) by (simp add: undone_line_def)
  moreover have "mset (tasks ?cur') = mset (tasks list)"
    using perm remove(2,5) by simp
  ultimately show ?thesis by blast
qed

text \<open>
  Claim C1, as the code has it. Take a state whose task ids are pairwise different and,
  with the ids of the history, below \<open>next_id\<close>, and three commands that each record
  an action (an add, a complete of a pending task or a remove of a present task), with
  \<open>next_id\<close> staying within \<open>INT_MAX\<close>. Three calls of \<open>undoLastAction\<close> in a row
  then return and reverse the third operation, then the second, then the first: each
  call takes the action of its operation off the history, prints the line of that
  inverse, and leaves the tasks that the list held before that operation (the same
  tasks with the same fields; a task put back by the inverse of a remove stands at the
  end), so that the history and the tasks from before the three operations are back.
  On an empty history \<open>undoLastAction\<close> prints that there is nothing to undo and
  returns the list and the empty history as they were. The last three parts say what
  one call does with any action on top of any history: for an \<open>ACTION_ADD\<close> it unlinks
  the first task with the id, for an \<open>ACTION_COMPLETE\<close> it sets the flag of that task
  to the recorded one, for an \<open>ACTION_REMOVE\<close> it appends a task with the recorded id,
  description and flag.
\<close>

theorem undo_lifo:
  "(ids_below_next (lista, stack) \<and> distinct (map id_t (tasks lista)) \<and>
    sint (next_id lista) + int (count_adds [ca, cb, cc]) \<le> INT_MAX \<and>
    main_step ca (lista, stack) = Inr ((listb, aa # stack), outa) \<and>
    main_step cb (listb, aa # stack) = Inr ((listc, ab # aa # stack), outb) \<and>
    main_step cc (listc, ab # aa # stack) = Inr ((listd, ac # ab # aa # stack), outc) \<longrightarrow>
      (\<exists>ua ma ub mb uc mc.
         undoLastAction listd (ac # ab # aa # stack) =
           Inr (ua, ab # aa # stack, [Undoing, ma]) \<and>
         undone_line ac = Some ma \<and> mset (tasks ua) = mset (tasks listc) \<and>
         undoLastAction ua (ab # aa # stack) = Inr (ub, aa # stack, [Undoing, mb]) \<and>
         undone_line ab = Some mb \<and> mset (tasks ub) = mset (tasks listb) \<and>
         undoLastAction ub (aa # stack) = Inr (uc, stack, [Undoing, mc]) \<and>
         undone_line aa = Some mc \<and> mset (tasks uc) = mset (tasks lista))) \<and>
   undoLastAction lst [] = Inr (lst, [], [NothingToUndo]) \<and>
   (type a = ACTION_ADD \<and> tasks cur = pre @ t # post \<and> id_t t = task_id a \<and>
    task_id a \<notin> id_t ` set pre \<longrightarrow>
      undoLastAction cur (a # rest) =
        Inr (cur\<lparr>tasks := pre @ post\<rparr>, rest, [Undoing, UndoneAdd (task_id a)])) \<and>
   (type a = ACTION_COMPLETE \<and> tasks cur = pre @ t # post \<and> id_t t = task_id a \<and>
    task_id a \<notin> id_t ` set pre \<longrightarrow>
      undoLastAction cur (a # rest) =
        Inr (cur\<lparr>tasks := pre @ t\<lparr>completed := was_completed a\<rparr> # post\<rparr>, rest,
             [Undoing, UndoneComplete (task_id a) (was_completed a)])) \<and>
   (type a = ACTION_REMOVE \<and> task_description a = Some d \<longrightarrow>
      undoLastAction cur (a # rest) =
        Inr (cur\<lparr>tasks := tasks cur @
                 [\<lparr>id_t = task_id a, description = d, completed = was_completed a\<rparr>],
               next_id := (if sint (next_id cur) \<le> sint (task_id a) then task_id a + 1
                           else next_id cur)\<rparr>,
             rest, [Undoing, UndoneRemove d (task_id a)]))"
proof (intro conjI impI)
  assume hyp: "ids_below_next (lista, stack) \<and> distinct (map id_t (tasks lista)) \<and>
    sint (next_id lista) + int (count_adds [ca, cb, cc]) \<le> INT_MAX \<and>
    main_step ca (lista, stack) = Inr ((listb, aa # stack), outa) \<and>
    main_step cb (listb, aa # stack) = Inr ((listc, ab # aa # stack), outb) \<and>
    main_step cc (listc, ab # aa # stack) = Inr ((listd, ac # ab # aa # stack), outc)"
  then have inv_a: "ids_below_next (lista, stack)"
    and dist_a: "distinct (map id_t (tasks lista))"
    and room: "sint (next_id lista) + int (count_adds [ca, cb, cc]) \<le> INT_MAX"
    and step_a: "main_step ca (lista, stack) = Inr ((listb, aa # stack), outa)"
    and step_b: "main_step cb (listb, aa # stack) = Inr ((listc, ab # aa # stack), outb)"
    and step_c: "main_step cc (listc, ab # aa # stack) = Inr ((listd, ac # ab # aa # stack), outc)"
    by simp_all
  have adds: "count_adds [ca, cb, cc] = count_adds [ca] + count_adds [cb] + count_adds [cc]"
    by (cases ca; cases cb; cases cc) simp_all
  from room adds have room_a: "sint (next_id lista) + int (count_adds [ca]) \<le> INT_MAX"
    by simp
  note after_a = recorded_step_invariant [OF inv_a dist_a room_a step_a]
  then have inv_b: "ids_below_next (listb, aa # stack)"
    and dist_b: "distinct (map id_t (tasks listb))"
    by simp_all
  from after_a room adds have room_b: "sint (next_id listb) + int (count_adds [cb]) \<le> INT_MAX"
    by simp
  note after_b = recorded_step_invariant [OF inv_b dist_b room_b step_b]
  then have inv_c: "ids_below_next (listc, ab # aa # stack)"
    and dist_c: "distinct (map id_t (tasks listc))"
    by simp_all
  from undo_reverses_recorded [OF inv_c dist_c step_c refl, of "ab # aa # stack"]
  obtain ua ma where
    undo_c: "undoLastAction listd (ac # ab # aa # stack) = Inr (ua, ab # aa # stack, [Undoing, ma])"
    and line_c: "undone_line ac = Some ma" and bag_c: "mset (tasks ua) = mset (tasks listc)"
    by blast
  from undo_reverses_recorded [OF inv_b dist_b step_b bag_c, of "aa # stack"]
  obtain ub mb where
    undo_b: "undoLastAction ua (ab # aa # stack) = Inr (ub, aa # stack, [Undoing, mb])"
    and line_b: "undone_line ab = Some mb" and bag_b: "mset (tasks ub) = mset (tasks listb)"
    by blast
  from undo_reverses_recorded [OF inv_a dist_a step_a bag_b, of stack]
  obtain uc mc where
    undo_a: "undoLastAction ub (aa # stack) = Inr (uc, stack, [Undoing, mc])"
    and line_a: "undone_line aa = Some mc" and bag_a: "mset (tasks uc) = mset (tasks lista)"
    by blast
  from undo_c line_c bag_c undo_b line_b bag_b undo_a line_a bag_a
  show "\<exists>ua ma ub mb uc mc.
         undoLastAction listd (ac # ab # aa # stack) =
           Inr (ua, ab # aa # stack, [Undoing, ma]) \<and>
         undone_line ac = Some ma \<and> mset (tasks ua) = mset (tasks listc) \<and>
         undoLastAction ua (ab # aa # stack) = Inr (ub, aa # stack, [Undoing, mb]) \<and>
         undone_line ab = Some mb \<and> mset (tasks ub) = mset (tasks listb) \<and>
         undoLastAction ub (aa # stack) = Inr (uc, stack, [Undoing, mc]) \<and>
         undone_line aa = Some mc \<and> mset (tasks uc) = mset (tasks lista)"
    by blast
next
  show "undoLastAction lst [] = Inr (lst, [], [NothingToUndo])"
    by (rule undoLastAction_Nil)
next
  assume "type a = ACTION_ADD \<and> tasks cur = pre @ t # post \<and> id_t t = task_id a \<and>
    task_id a \<notin> id_t ` set pre"
  then show "undoLastAction cur (a # rest) =
      Inr (cur\<lparr>tasks := pre @ post\<rparr>, rest, [Undoing, UndoneAdd (task_id a)])"
    by (simp add: undoLastAction_Cons undo_switch_add_first [where t = t])
next
  assume "type a = ACTION_COMPLETE \<and> tasks cur = pre @ t # post \<and> id_t t = task_id a \<and>
    task_id a \<notin> id_t ` set pre"
  then show "undoLastAction cur (a # rest) =
      Inr (cur\<lparr>tasks := pre @ t\<lparr>completed := was_completed a\<rparr> # post\<rparr>, rest,
           [Undoing, UndoneComplete (task_id a) (was_completed a)])"
    by (simp add: undoLastAction_Cons undo_switch_complete_first [where t = t])
next
  assume "type a = ACTION_REMOVE \<and> task_description a = Some d"
  then show "undoLastAction cur (a # rest) =
      Inr (cur\<lparr>tasks := tasks cur @
               [\<lparr>id_t = task_id a, description = d, completed = was_completed a\<rparr>],
             next_id := (if sint (next_id cur) \<le> sint (task_id a) then task_id a + 1
                         else next_id cur)\<rparr>,
           rest, [Undoing, UndoneRemove d (task_id a)])"
    by (simp add: undoLastAction_Cons undo_switch_remove)
qed

theorem undo_lifo_witness:
  "ids_below_next (initTaskList, initActionStack) \<and>
   distinct (map id_t (tasks initTaskList)) \<and>
   sint (next_id initTaskList) + int (count_adds [CmdAdd ''x'', CmdRemove 1, CmdAdd ''y''])
     \<le> INT_MAX \<and>
   main_step (CmdAdd ''x'') (initTaskList, initActionStack) =
     Inr ((\<lparr>tasks = [\<lparr>id_t = 1, description = ''x'', completed = False\<rparr>], next_id = 2\<rparr>,
           [\<lparr>type = ACTION_ADD, task_id = 1, task_description = Some ''x'',
              was_completed = False\<rparr>]),
          [Added ''x'' 1]) \<and>
   main_step (CmdRemove 1)
     (\<lparr>tasks = [\<lparr>id_t = 1, description = ''x'', completed = False\<rparr>], next_id = 2\<rparr>,
      [\<lparr>type = ACTION_ADD, task_id = 1, task_description = Some ''x'', was_completed = False\<rparr>]) =
     Inr ((\<lparr>tasks = [], next_id = 2\<rparr>,
           [\<lparr>type = ACTION_REMOVE, task_id = 1, task_description = Some ''x'',
              was_completed = False\<rparr>,
            \<lparr>type = ACTION_ADD, task_id = 1, task_description = Some ''x'',
              was_completed = False\<rparr>]),
          [Removed 1 ''x'']) \<and>
   main_step (CmdAdd ''y'')
     (\<lparr>tasks = [], next_id = 2\<rparr>,
      [\<lparr>type = ACTION_REMOVE, task_id = 1, task_description = Some ''x'', was_completed = False\<rparr>,
       \<lparr>type = ACTION_ADD, task_id = 1, task_description = Some ''x'', was_completed = False\<rparr>]) =
     Inr ((\<lparr>tasks = [\<lparr>id_t = 2, description = ''y'', completed = False\<rparr>], next_id = 3\<rparr>,
           [\<lparr>type = ACTION_ADD, task_id = 2, task_description = Some ''y'',
              was_completed = False\<rparr>,
            \<lparr>type = ACTION_REMOVE, task_id = 1, task_description = Some ''x'',
              was_completed = False\<rparr>,
            \<lparr>type = ACTION_ADD, task_id = 1, task_description = Some ''x'',
              was_completed = False\<rparr>]),
          [Added ''y'' 2]) \<and>
   undoLastAction \<lparr>tasks = [\<lparr>id_t = 2, description = ''y'', completed = False\<rparr>], next_id = 3\<rparr>
     [\<lparr>type = ACTION_ADD, task_id = 2, task_description = Some ''y'', was_completed = False\<rparr>,
      \<lparr>type = ACTION_REMOVE, task_id = 1, task_description = Some ''x'', was_completed = False\<rparr>,
      \<lparr>type = ACTION_ADD, task_id = 1, task_description = Some ''x'', was_completed = False\<rparr>] =
     Inr (\<lparr>tasks = [], next_id = 3\<rparr>,
          [\<lparr>type = ACTION_REMOVE, task_id = 1, task_description = Some ''x'',
             was_completed = False\<rparr>,
           \<lparr>type = ACTION_ADD, task_id = 1, task_description = Some ''x'',
             was_completed = False\<rparr>],
          [Undoing, UndoneAdd 2]) \<and>
   undoLastAction \<lparr>tasks = [], next_id = 3\<rparr>
     [\<lparr>type = ACTION_REMOVE, task_id = 1, task_description = Some ''x'', was_completed = False\<rparr>,
      \<lparr>type = ACTION_ADD, task_id = 1, task_description = Some ''x'', was_completed = False\<rparr>] =
     Inr (\<lparr>tasks = [\<lparr>id_t = 1, description = ''x'', completed = False\<rparr>], next_id = 3\<rparr>,
          [\<lparr>type = ACTION_ADD, task_id = 1, task_description = Some ''x'',
             was_completed = False\<rparr>],
          [Undoing, UndoneRemove ''x'' 1]) \<and>
   undoLastAction \<lparr>tasks = [\<lparr>id_t = 1, description = ''x'', completed = False\<rparr>], next_id = 3\<rparr>
     [\<lparr>type = ACTION_ADD, task_id = 1, task_description = Some ''x'', was_completed = False\<rparr>] =
     Inr (\<lparr>tasks = [], next_id = 3\<rparr>, [], [Undoing, UndoneAdd 1]) \<and>
   mset (tasks \<lparr>tasks = [], next_id = 3\<rparr>) = mset (tasks initTaskList) \<and>
   undoLastAction \<lparr>tasks = [], next_id = 3\<rparr> [] =
     Inr (\<lparr>tasks = [], next_id = 3\<rparr>, [], [NothingToUndo]) \<and>
   undoLastAction sample_list
     [\<lparr>type = ACTION_COMPLETE, task_id = 2, task_description = None, was_completed = False\<rparr>] =
     Inr (sample_list\<lparr>tasks :=
            [\<lparr>id_t = 1, description = ''buy milk'', completed = False\<rparr>,
             \<lparr>id_t = 2, description = ''pay bills'', completed = False\<rparr>,
             \<lparr>id_t = 3, description = ''call home'', completed = False\<rparr>]\<rparr>,
          [], [Undoing, UndoneComplete 2 False])"
  using undo_lifo [where lista = initTaskList and stack = initActionStack
      and ca = "CmdAdd ''x''" and cb = "CmdRemove 1" and cc = "CmdAdd ''y''"
      and listb = "\<lparr>tasks = [\<lparr>id_t = 1, description = ''x'', completed = False\<rparr>],
        next_id = 2\<rparr>"
      and listc = "\<lparr>tasks = [], next_id = 2\<rparr>"
      and listd = "\<lparr>tasks = [\<lparr>id_t = 2, description = ''y'', completed = False\<rparr>],
        next_id = 3\<rparr>"
      and aa = "\<lparr>type = ACTION_ADD, task_id = 1, task_description = Some ''x'',
        was_completed = False\<rparr>"
      and ab = "\<lparr>type = ACTION_REMOVE, task_id = 1, task_description = Some ''x'',
        was_completed = False\<rparr>"
      and ac = "\<lparr>type = ACTION_ADD, task_id = 2, task_description = Some ''y'',
        was_completed = False\<rparr>"
      and outa = "[Added ''x'' 1]" and outb = "[Removed 1 ''x'']" and outc = "[Added ''y'' 2]"
      and lst = "\<lparr>tasks = [], next_id = 3\<rparr>"
      and a = "\<lparr>type = ACTION_COMPLETE, task_id = 2, task_description = None,
        was_completed = False\<rparr>"
      and cur = sample_list and rest = "[]"
      and pre = "[\<lparr>id_t = 1, description = ''buy milk'', completed = False\<rparr>]"
      and t = "\<lparr>id_t = 2, description = ''pay bills'', completed = True\<rparr>"
      and post = "[\<lparr>id_t = 3, description = ''call home'', completed = False\<rparr>]"]
  by (simp add: sample_list_def initTaskList_def initActionStack_def INT_MAX_def ids_below_next_def
      main_step_def main_case1_eq main_case4_def removeTask_def pushAction_def
      undoLastAction_Cons undoLastAction_Nil undo_switch_def createTask_def)

text \<open>Adds that are undone at once only move \<open>next_id\<close>, as long as the ids they
  issue are not in the list.\<close>

lemma add_undo_cycles_keep:
  "\<forall>j < n. k + of_nat j \<notin> id_t ` set ts \<Longrightarrow>
     final_state (main_loop (concat (replicate n [CmdAdd d, CmdUndo]))
         (\<lparr>tasks = ts, next_id = k\<rparr>, st)) =
       Some (\<lparr>tasks = ts, next_id = k + of_nat n\<rparr>, st)"
proof (induction n arbitrary: k)
  case 0
  show ?case by (simp add: final_state_def)
next
  case (Suc n)
  let ?a = "\<lparr>type = ACTION_ADD, task_id = k, task_description = Some d, was_completed = False\<rparr>"
  let ?s0 = "(\<lparr>tasks = ts, next_id = k\<rparr>, st) :: state"
  let ?s1 = "(\<lparr>tasks = ts @ [\<lparr>id_t = k, description = d, completed = False\<rparr>],
               next_id = k + 1\<rparr>, ?a # st) :: state"
  let ?s2 = "(\<lparr>tasks = ts, next_id = k + 1\<rparr>, st) :: state"
  from Suc.prems [rule_format, of 0] have fresh: "k \<notin> id_t ` set ts"
    by simp
  have later: "\<forall>j < n. k + 1 + of_nat j \<notin> id_t ` set ts"
  proof (intro allI impI)
    fix j assume "j < n"
    with Suc.prems [rule_format, of "Suc j"] have "k + of_nat (Suc j) \<notin> id_t ` set ts"
      by simp
    then show "k + 1 + of_nat j \<notin> id_t ` set ts" by (simp add: add.assoc)
  qed
  have add: "main_step (CmdAdd d) ?s0 = Inr (?s1, [Added d k])"
    by (simp add: main_step_def main_case1_eq pushAction_def)
  have "undo_switch ?a (fst ?s1) = Inr ((fst ?s1)\<lparr>tasks := ts @ []\<rparr>, [UndoneAdd (task_id ?a)])"
    using fresh
    by (intro undo_switch_add_first
        [where t = "\<lparr>id_t = k, description = d, completed = False\<rparr>"]) simp_all
  then have undo: "main_step CmdUndo ?s1 = Inr (?s2, [Undoing, UndoneAdd k])"
    by (simp add: main_step_def main_case5_Cons)
  have "final_state (main_loop (concat (replicate (Suc n) [CmdAdd d, CmdUndo])) ?s0) =
      final_state (main_loop (concat (replicate n [CmdAdd d, CmdUndo])) ?s2)"
    by (simp only: replicate_Suc concat.simps append.simps
        final_state_main_loop_Cons [OF add] final_state_main_loop_Cons [OF undo])
  also have "\<dots> = Some (\<lparr>tasks = ts, next_id = k + 1 + of_nat n\<rparr>, st)"
    using later by (rule Suc.IH)
  finally show ?case by (simp add: add.assoc)
qed

lemma no_wrap_to_one:
  assumes "j < 4294967295"
  shows "(2 :: cint) + of_nat j \<noteq> 1"
proof
  assume "(2 :: cint) + of_nat j = 1"
  then have "(of_nat (Suc j) :: cint) = 0" by simp
  then have "2 ^ LENGTH(32) dvd Suc j" by (simp only: word_of_nat_eq_0_iff)
  then have "(4294967296 :: nat) \<le> Suc j" by (auto dest: dvd_imp_le)
  with assms show False by simp
qed

text \<open>
  The claim C1 as the spec words it, for any three mutating operations, fails where a
  task already carries the id \<open>next_id\<close>. One add and 4294967295 adds undone at once
  bring \<open>next_id\<close> around to the id 1 of the task ''old''. Three adds follow, of
  ''x'' (issued the id 1 again), ''y'' and ''z''. The three undo calls take the three
  records off in the order z, y, x, but the last one unlinks the first task with the
  id 1, which is ''old'': ''x'' stays and ''old'' is lost.
\<close>

theorem undo_lifo_counterexample:
  "final_state (main_loop (CmdAdd ''old'' # concat (replicate 4294967295 [CmdAdd ''a'', CmdUndo]))
       (initTaskList, initActionStack)) =
     Some (\<lparr>tasks = [\<lparr>id_t = 1, description = ''old'', completed = False\<rparr>], next_id = 1\<rparr>,
           [\<lparr>type = ACTION_ADD, task_id = 1, task_description = Some ''old'',
              was_completed = False\<rparr>]) \<and>
   main_loop [CmdAdd ''x'', CmdAdd ''y'', CmdAdd ''z'']
     (\<lparr>tasks = [\<lparr>id_t = 1, description = ''old'', completed = False\<rparr>], next_id = 1\<rparr>,
      [\<lparr>type = ACTION_ADD, task_id = 1, task_description = Some ''old'',
         was_completed = False\<rparr>]) =
     Inr ((\<lparr>tasks = [\<lparr>id_t = 1, description = ''old'', completed = False\<rparr>,
                      \<lparr>id_t = 1, description = ''x'', completed = False\<rparr>,
                      \<lparr>id_t = 2, description = ''y'', completed = False\<rparr>,
                      \<lparr>id_t = 3, description = ''z'', completed = False\<rparr>],
             next_id = 4\<rparr>,
           [\<lparr>type = ACTION_ADD, task_id = 3, task_description = Some ''z'',
              was_completed = False\<rparr>,
            \<lparr>type = ACTION_ADD, task_id = 2, task_description = Some ''y'',
              was_completed = False\<rparr>,
            \<lparr>type = ACTION_ADD, task_id = 1, task_description = Some ''x'',
              was_completed = False\<rparr>,
            \<lparr>type = ACTION_ADD, task_id = 1, task_description = Some ''old'',
              was_completed = False\<rparr>]),
          [Added ''x'' 1, Added ''y'' 2, Added ''z'' 3]) \<and>
   main_loop [CmdUndo, CmdUndo, CmdUndo]
     (\<lparr>tasks = [\<lparr>id_t = 1, description = ''old'', completed = False\<rparr>,
                \<lparr>id_t = 1, description = ''x'', completed = False\<rparr>,
                \<lparr>id_t = 2, description = ''y'', completed = False\<rparr>,
                \<lparr>id_t = 3, description = ''z'', completed = False\<rparr>],
       next_id = 4\<rparr>,
      [\<lparr>type = ACTION_ADD, task_id = 3, task_description = Some ''z'', was_completed = False\<rparr>,
       \<lparr>type = ACTION_ADD, task_id = 2, task_description = Some ''y'', was_completed = False\<rparr>,
       \<lparr>type = ACTION_ADD, task_id = 1, task_description = Some ''x'', was_completed = False\<rparr>,
       \<lparr>type = ACTION_ADD, task_id = 1, task_description = Some ''old'',
          was_completed = False\<rparr>]) =
     Inr ((\<lparr>tasks = [\<lparr>id_t = 1, description = ''x'', completed = False\<rparr>], next_id = 4\<rparr>,
           [\<lparr>type = ACTION_ADD, task_id = 1, task_description = Some ''old'',
              was_completed = False\<rparr>]),
          [Undoing, UndoneAdd 3, Undoing, UndoneAdd 2, Undoing, UndoneAdd 1]) \<and>
   mset [\<lparr>id_t = 1, description = ''x'', completed = False\<rparr>] \<noteq>
     mset [\<lparr>id_t = 1, description = ''old'', completed = False\<rparr>]"
proof -
  let ?old = "\<lparr>id_t = 1, description = ''old'', completed = False\<rparr>"
  let ?rec = "\<lparr>type = ACTION_ADD, task_id = 1, task_description = Some ''old'',
               was_completed = False\<rparr>"
  have first: "main_step (CmdAdd ''old'') (initTaskList, initActionStack) =
      Inr ((\<lparr>tasks = [?old], next_id = 2\<rparr>, [?rec]), [Added ''old'' 1])"
    by (simp add: main_step_def main_case1_eq pushAction_def initTaskList_def
        initActionStack_def)
  have "\<forall>j < 4294967295. (2 :: cint) + of_nat j \<notin> id_t ` set [?old]"
    using no_wrap_to_one by simp
  then have "final_state (main_loop (concat (replicate 4294967295 [CmdAdd ''a'', CmdUndo]))
        (\<lparr>tasks = [?old], next_id = 2\<rparr>, [?rec])) =
      Some (\<lparr>tasks = [?old], next_id = 2 + of_nat 4294967295\<rparr>, [?rec])"
    by (rule add_undo_cycles_keep)
  moreover have "(2 :: cint) + of_nat 4294967295 = 1"
    by simp
  ultimately have cycles: "final_state
      (main_loop (concat (replicate 4294967295 [CmdAdd ''a'', CmdUndo]))
        (\<lparr>tasks = [?old], next_id = 2\<rparr>, [?rec])) =
      Some (\<lparr>tasks = [?old], next_id = 1\<rparr>, [?rec])"
    by (simp only:)
  have reach: "final_state
      (main_loop (CmdAdd ''old'' # concat (replicate 4294967295 [CmdAdd ''a'', CmdUndo]))
        (initTaskList, initActionStack)) =
      Some (\<lparr>tasks = [?old], next_id = 1\<rparr>, [?rec])"
    by (simp only: final_state_main_loop_Cons [OF first] cycles)
  show ?thesis
    unfolding reach
    by (simp add: main_step_def main_case1_eq main_case5_Cons pushAction_def undo_switch_def)
qed

end
